theory Spec2Isabelle
  imports Main "HOL-Library.AList"
begin

section \<open>Types, values and errors\<close>

text \<open>
  The container works on \<^verbatim>\<open>reflect.Type\<close> descriptors and on \<^verbatim>\<open>any\<close> values.
  A type is identified by its name (Go's identity of defined types); a pointer type by its
  element type. Only the kinds the container distinguishes are kept apart; \<open>TOther\<close> is any
  type of another kind (int, bool, slices, ...). The predeclared \<^verbatim>\<open>string\<close> is the only
  type of kind String that is represented.
\<close>

datatype kind = Ptr | Struct | String | Interface | OtherKind

datatype rtype = TString | TStruct string | TInterface string | TPtr rtype | TOther string

fun kindOf :: "rtype \<Rightarrow> kind" where
  "kindOf TString = String"
| "kindOf (TStruct n) = Struct"
| "kindOf (TInterface n) = Interface"
| "kindOf (TPtr t) = Ptr"
| "kindOf (TOther n) = OtherKind"

text \<open>\<^verbatim>\<open>Type.Elem()\<close> panics on a type that is not a pointer (of the kinds here): \<open>None\<close>.\<close>

fun elemOf :: "rtype \<Rightarrow> rtype option" where
  "elemOf (TPtr t) = Some t"
| "elemOf t = None"

text \<open>
  Values. \<open>VNil\<close> is the nil interface value (\<^verbatim>\<open>instance == nil\<close>); a typed nil pointer
  is \<open>VPtr t None\<close> and is not nil as an \<^verbatim>\<open>any\<close>. A struct value holds the fields that
  were set, by index; a field that is absent holds the zero value of its type. The heap is
  the list of allocated cells, a pointer holds the index of its cell.
\<close>

datatype val =
    VNil
  | VString string
  | VOther string nat
  | VStruct string "(nat \<times> val) list"
  | VPtr rtype "nat option"

type_synonym heap = "val list"

fun typeOf :: "val \<Rightarrow> rtype option" where
  "typeOf VNil = None"
| "typeOf (VString s) = Some TString"
| "typeOf (VOther n x) = Some (TOther n)"
| "typeOf (VStruct n fs) = Some (TStruct n)"
| "typeOf (VPtr t a) = Some (TPtr t)"

fun zeroVal :: "rtype \<Rightarrow> val" where
  "zeroVal TString = VString []"
| "zeroVal (TStruct n) = VStruct n []"
| "zeroVal (TInterface n) = VNil"
| "zeroVal (TPtr t) = VPtr t None"
| "zeroVal (TOther n) = VOther n 0"

text \<open>\<^verbatim>\<open>reflect.New(t)\<close>: a fresh cell holding the zero value of \<open>t\<close>, and the pointer to it.\<close>

definition reflectNew :: "rtype \<Rightarrow> heap \<Rightarrow> val \<times> heap" where
  "reflectNew t h = (VPtr t (Some (length h)), h @ [zeroVal t])"

text \<open>Constants of the package.\<close>

definition emptyString :: string where
  "emptyString = []"

definition pathSep :: string where
  "pathSep = '' -> ''"

text \<open>
  Errors. The sentinel errors of the package, the errors of user code (the literal provider,
  an \<^verbatim>\<open>Initialize\<close> hook), and one constructor for each \<^verbatim>\<open>fmt.Errorf\<close> of the
  source, holding its arguments; \<open>errorText\<close> is the \<^verbatim>\<open>Error()\<close> string.
\<close>

datatype error =
    ErrBeanIdParamIsEmpty
  | ErrBeanTypeParamIsNil
  | ErrBeanParamIsNil
  | ErrBeanTypeNotSupported
  | ErrRegistrationClosed
  | UserError string
  | ReceiverNotFound string
  | CycleDetected string
  | ReceiverNil string
  | LiteralProviderError string error
  | DependencyNotFound string string
  | DependencyNotInstantiated string string
  | InjectWrap error
  | StructCycle string string
  | ReceiverNotStruct string
  | RequiredNotRegistered string
  | TypeMismatch string rtype "rtype option"
  | CreateUnsupported kind
  | InitOrderCycle string
  | InitOrderNotRegistered string string
  | InitializerFailed string error

fun typeString :: "rtype \<Rightarrow> string" where
  "typeString TString = ''string''"
| "typeString (TStruct n) = n"
| "typeString (TInterface n) = n"
| "typeString (TPtr t) = ''*'' @ typeString t"
| "typeString (TOther n) = n"

fun kindString :: "kind \<Rightarrow> string" where
  "kindString Ptr = ''ptr''"
| "kindString Struct = ''struct''"
| "kindString String = ''string''"
| "kindString Interface = ''interface''"
| "kindString OtherKind = ''other''"

fun errorText :: "error \<Rightarrow> string" where
  "errorText ErrBeanIdParamIsEmpty = ''beanID parameter is empty''"
| "errorText ErrBeanTypeParamIsNil = ''beanType parameter is nil''"
| "errorText ErrBeanParamIsNil = ''bean parameter is nil''"
| "errorText ErrBeanTypeNotSupported = ''beanType is not supported''"
| "errorText ErrRegistrationClosed = ''container already built; registration is closed''"
| "errorText (UserError s) = s"
| "errorText (ReceiverNotFound i) =
     ''injectDependencies: receiver bean '' @ [CHR 0x27] @ i @ [CHR 0x27] @ '' not found''"
| "errorText (CycleDetected p) = ''dependency cycle detected: '' @ p"
| "errorText (ReceiverNil i) =
     ''injectDependencies: receiver bean '' @ [CHR 0x27] @ i @ [CHR 0x27] @ '' is nil''"
| "errorText (LiteralProviderError d e) =
     ''injectDependencies: literal provider error for '' @ [CHR 0x27] @ d @ [CHR 0x27] @ '': ''
       @ errorText e"
| "errorText (DependencyNotFound d r) =
     ''injectDependencies: dependency bean '' @ [CHR 0x27] @ d @ [CHR 0x27] @ '' for ''
       @ [CHR 0x27] @ r @ [CHR 0x27] @ '' receiver bean not found''"
| "errorText (DependencyNotInstantiated d r) =
     ''injectDependencies: dependency bean '' @ [CHR 0x27] @ d @ [CHR 0x27] @ '' for ''
       @ [CHR 0x27] @ r @ [CHR 0x27] @ '' receiver bean not instantiated''"
| "errorText (InjectWrap e) = ''injectDependencies: '' @ errorText e"
| "errorText (StructCycle c d) = ''dependency cycle detected: '' @ c @ '' -> '' @ d"
| "errorText (ReceiverNotStruct i) =
     ''injectIntoStruct: receiver bean '' @ [CHR 0x27] @ i @ [CHR 0x27] @ '' is not a struct''"
| "errorText (RequiredNotRegistered i) =
     ''bean `'' @ i @ ''` is required but not registered''"
| "errorText (TypeMismatch i req reg) =
     ''bean '' @ [CHR 0x27] @ i @ [CHR 0x27] @ '' type mismatch: required '' @ typeString req
       @ '', registered '' @ (case reg of None \<Rightarrow> ''<nil>'' | Some t \<Rightarrow> typeString t)"
| "errorText (CreateUnsupported k) = ''beanType is not supported: '' @ kindString k"
| "errorText (InitOrderCycle i) =
     ''initializer order: dependency cycle detected at '' @ [CHR 0x27] @ i @ [CHR 0x27]"
| "errorText (InitOrderNotRegistered d i) =
     ''initializer order: dependency '' @ [CHR 0x27] @ d @ [CHR 0x27] @ '' required by ''
       @ [CHR 0x27] @ i @ [CHR 0x27] @ '' not registered''"
| "errorText (InitializerFailed i e) =
     ''initializer for bean '' @ [CHR 0x27] @ i @ [CHR 0x27] @ '' failed: '' @ errorText e"

text \<open>
  How a call ends: it returns nil, it returns an error, or it panics (a panic of the
  \<^verbatim>\<open>reflect\<close> package). \<open>FuelExhausted\<close> belongs to the model only: the two depth-first
  traversals recurse on a fuel counter, and the theorems below show that the fuel
  \<open>Build\<close> gives them is never used up.
\<close>

datatype outcome = Success | Failure error | Panicked | FuelExhausted

section \<open>The program's types and hooks\<close>

text \<open>
  What the reflection calls read from the program that embeds the container: the fields of
  each struct type with their \<^verbatim>\<open>di.inject\<close> tag (\<open>None\<close> when the key is absent),
  \<^verbatim>\<open>Type.Implements\<close>, the \<^verbatim>\<open>Initialize\<close> method of the types that have one, and the
  literal provider installed by \<^verbatim>\<open>SetLiteralProvider\<close> (\<open>None\<close> for nil). The callbacks
  are user code; they are taken to return.
\<close>

record structField =
  fieldName :: string
  fieldType :: rtype
  fieldTag :: "string option"
  fieldExported :: bool

record env =
  structFields :: "string \<Rightarrow> structField list"
  implements :: "rtype \<Rightarrow> rtype \<Rightarrow> bool"
  initializeOf :: "rtype \<Rightarrow> (val \<Rightarrow> heap \<Rightarrow> heap \<times> error option) option"
  literalProvider :: "(string \<Rightarrow> rtype \<Rightarrow> val \<times> bool \<times> error option) option"

text \<open>\<^verbatim>\<open>strings.ToLower\<close>, on ASCII: identifiers outside ASCII are not modelled.\<close>

definition toLowerChar :: "char \<Rightarrow> char" where
  "toLowerChar c =
     (if 65 \<le> (of_char c :: nat) \<and> (of_char c :: nat) \<le> 90
      then char_of ((of_char c :: nat) + 32) else c)"

definition toLower :: "string \<Rightarrow> string" where
  "toLower s = map toLowerChar s"

section \<open>The container\<close>

record bean =
  id_bean :: string
  beanType :: "rtype option"
  instance_bean :: val
  singleton :: bool
  hasDependencies :: bool
  dependencies :: "string list"

record Container =
  built :: bool
  requiredDependency :: "string \<rightharpoonup> rtype"
  registeredBeans :: "string \<rightharpoonup> bean"

definition New :: Container where
  "New = \<lparr>built = False, requiredDependency = Map.empty, registeredBeans = Map.empty\<rparr>"


text \<open>
  \<open>checkForDependency\<close>: the loop over the fields of the struct type. A field with the
  \<^verbatim>\<open>di.inject\<close> key that is exported records its lower-cased tag with the expected type
  (the element type of a pointer-to-struct field, the field type of a string or interface
  field) and appends the tag to the identifiers.
\<close>

definition requireField ::
  "string \<Rightarrow> rtype \<Rightarrow> (string \<rightharpoonup> rtype) \<times> bool \<times> string list
     \<Rightarrow> (string \<rightharpoonup> rtype) \<times> bool \<times> string list" where
  "requireField tagName t acc =
     (case acc of (req, hasDeps, dependencyIDs) \<Rightarrow>
        (req(tagName \<mapsto> t), True, dependencyIDs @ [tagName]))"

definition checkField ::
  "structField \<Rightarrow> (string \<rightharpoonup> rtype) \<times> bool \<times> string list
     \<Rightarrow> (string \<rightharpoonup> rtype) \<times> bool \<times> string list" where
  "checkField field acc =
     (case fieldTag field of
        None \<Rightarrow> acc
      | Some tag \<Rightarrow>
          let tagName = toLower tag in
          if fieldExported field then
            let acc1 = (case fieldType field of
                          TPtr (TStruct n) \<Rightarrow> requireField tagName (TStruct n) acc
                        | _ \<Rightarrow> acc);
                acc2 = (if kindOf (fieldType field) = String
                        then requireField tagName (fieldType field) acc1 else acc1);
                acc3 = (if kindOf (fieldType field) = Interface
                        then requireField tagName (fieldType field) acc2 else acc2)
            in acc3
          else acc)"

fun checkFields ::
  "structField list \<Rightarrow> (string \<rightharpoonup> rtype) \<times> bool \<times> string list
     \<Rightarrow> (string \<rightharpoonup> rtype) \<times> bool \<times> string list" where
  "checkFields [] acc = acc"
| "checkFields (field # rest) acc = checkFields rest (checkField field acc)"

text \<open>
  The result is \<open>None\<close> where the source panics: a type of kind Struct passes the first
  test and \<^verbatim>\<open>beanType.Elem()\<close> panics on it. Both callers pass pointers or other kinds.
\<close>

definition checkForDependency ::
  "env \<Rightarrow> rtype \<Rightarrow> Container \<Rightarrow> (bool \<times> string list \<times> Container) option" where
  "checkForDependency e bt c =
     (case bt of
        TPtr (TStruct n) \<Rightarrow>
          (case checkFields (structFields e n) (requiredDependency c, False, []) of
             (req, hasDeps, dependencyIDs) \<Rightarrow>
               Some (hasDeps, dependencyIDs, c\<lparr>requiredDependency := req\<rparr>))
      | TPtr t \<Rightarrow> Some (False, [], c)
      | TStruct n \<Rightarrow> None
      | t \<Rightarrow> Some (False, [], c))"

definition Register :: "env \<Rightarrow> string \<Rightarrow> rtype option \<Rightarrow> Container \<Rightarrow> outcome \<times> Container" where
  "Register e beanID beanTypeArg c =
     (if beanID = emptyString then (Failure ErrBeanIdParamIsEmpty, c)
      else case beanTypeArg of
        None \<Rightarrow> (Failure ErrBeanTypeParamIsNil, c)
      | Some bt0 \<Rightarrow>
          if built c then (Failure ErrRegistrationClosed, c)
          else
            let beanID' = toLower beanID in
            (case (case kindOf bt0 of Ptr \<Rightarrow> Some bt0 | Struct \<Rightarrow> Some (TPtr bt0) | _ \<Rightarrow> None) of
               None \<Rightarrow> (Failure ErrBeanTypeNotSupported, c)
             | Some bt \<Rightarrow>
                 (case checkForDependency e bt c of
                    None \<Rightarrow> (Panicked, c)
                  | Some (hasDeps, deps, c1) \<Rightarrow>
                      (Success,
                       c1\<lparr>registeredBeans := (registeredBeans c1)(beanID' \<mapsto>
                         \<lparr>id_bean = beanID', beanType = Some bt, instance_bean = VNil,
                          singleton = False, hasDependencies = hasDeps,
                          dependencies = deps\<rparr>)\<rparr>))))"

text \<open>
  \<open>RegisterInstance\<close>: a struct value is copied into a freshly allocated cell and the
  pointer to the cell becomes the instance.
\<close>

definition RegisterInstance ::
  "env \<Rightarrow> string \<Rightarrow> val \<Rightarrow> Container \<Rightarrow> heap \<Rightarrow> outcome \<times> Container \<times> heap" where
  "RegisterInstance e beanID inst c h =
     (if beanID = emptyString then (Failure ErrBeanIdParamIsEmpty, c, h)
      else case typeOf inst of
        None \<Rightarrow> (Failure ErrBeanParamIsNil, c, h)
      | Some bt0 \<Rightarrow>
          if built c then (Failure ErrRegistrationClosed, c, h)
          else
            let beanID' = toLower beanID;
                (inst1, bt, h1) =
                   (if kindOf bt0 = Struct
                    then (VPtr bt0 (Some (length h)), TPtr bt0, h @ [inst])
                    else (inst, bt0, h))
            in (case checkForDependency e bt c of
                  None \<Rightarrow> (Panicked, c, h1)
                | Some (has, deps, c1) \<Rightarrow>
                    (Success,
                     c1\<lparr>registeredBeans := (registeredBeans c1)(beanID' \<mapsto>
                       \<lparr>id_bean = beanID', beanType = Some bt, instance_bean = inst1,
                        singleton = True, hasDependencies = has, dependencies = deps\<rparr>)\<rparr>,
                     h1)))"

section \<open>Field injection\<close>

definition createInstance :: "rtype \<Rightarrow> heap \<Rightarrow> (error + val) \<times> heap" where
  "createInstance bt h =
     (case bt of
        TPtr t \<Rightarrow> (case reflectNew t h of (p, h1) \<Rightarrow> (Inr p, h1))
      | TStruct n \<Rightarrow> (case reflectNew bt h of (p, h1) \<Rightarrow> (Inr p, h1))
      | _ \<Rightarrow> (Inl (CreateUnsupported (kindOf bt)), h))"

text \<open>\<^verbatim>\<open>strings.Join\<close>.\<close>

fun stringsJoin :: "string list \<Rightarrow> string \<Rightarrow> string" where
  "stringsJoin [] sep = []"
| "stringsJoin [x] sep = x"
| "stringsJoin (x # y # ys) sep = x @ sep @ stringsJoin (y # ys) sep"

text \<open>
  \<^verbatim>\<open>Value.Set\<close> panics unless the value is valid and assignable to the type of the field:
  the types are identical, or the field is an interface that the value's type implements.
\<close>

definition assignable :: "env \<Rightarrow> val \<Rightarrow> rtype \<Rightarrow> bool" where
  "assignable e v ft =
     (case typeOf v of
        None \<Rightarrow> False
      | Some vt \<Rightarrow> vt = ft \<or> (kindOf ft = Interface \<and> implements e vt ft))"

datatype fieldResult = Untouched | SetTo val | SetPanics

definition setValue :: "env \<Rightarrow> val \<Rightarrow> rtype \<Rightarrow> fieldResult" where
  "setValue e v ft = (if assignable e v ft then SetTo v else SetPanics)"

text \<open>
  The body of the loop of \<open>injectIntoStruct\<close> for one field: what the field receives.
  \<open>canAddr\<close> says that the receiver was reached through a pointer, so that an exported
  field can be set.
\<close>

definition injectField ::
  "env \<Rightarrow> structField \<Rightarrow> bool \<Rightarrow> bean \<Rightarrow> heap \<Rightarrow> fieldResult \<times> heap" where
  "injectField e sf canAddr depBean h =
     (let tagVal = (case fieldTag sf of None \<Rightarrow> emptyString | Some t \<Rightarrow> t) in
      if tagVal = emptyString then (Untouched, h)
      else if toLower tagVal \<noteq> id_bean depBean then (Untouched, h)
      else if \<not> (canAddr \<and> fieldExported sf) then (Untouched, h)
      else
        let ft = fieldType sf; depVal = instance_bean depBean; depType = beanType depBean in
        if Some ft = depType then
          (case ft of
             TPtr (TStruct n) \<Rightarrow>
               if length (structFields e n) = 0
               then (case reflectNew (TStruct n) h of (p, h1) \<Rightarrow> (SetTo p, h1))
               else (setValue e depVal ft, h)
           | _ \<Rightarrow> (setValue e depVal ft, h))
        else if kindOf ft = Interface then
          (case typeOf depVal of
             None \<Rightarrow> (SetPanics, h)
           | Some vt \<Rightarrow> if implements e vt ft then (SetTo depVal, h) else (Untouched, h))
        else
          (case depType of
             None \<Rightarrow> if kindOf ft = Ptr \<or> kindOf ft = Struct then (SetPanics, h) else (Untouched, h)
           | Some dt \<Rightarrow>
               if kindOf ft = Ptr \<and> kindOf dt = Struct \<and> elemOf ft = Some dt then
                 (if assignable e depVal dt
                  then (SetTo (VPtr dt (Some (length h))), h @ [depVal])
                  else (SetPanics, h @ [zeroVal dt]))
               else if kindOf ft = Struct \<and> kindOf dt = Ptr \<and> elemOf dt = Some ft then
                 (case depVal of
                    VPtr t (Some a) \<Rightarrow>
                      if a < length h then (setValue e (h ! a) ft, h) else (SetPanics, h)
                  | _ \<Rightarrow> (SetPanics, h))
               else if kindOf ft = Ptr \<and> kindOf dt = Ptr \<and> elemOf ft = elemOf dt then
                 (setValue e depVal ft, h)
               else (Untouched, h)))"

fun setField :: "nat \<Rightarrow> val \<Rightarrow> val \<Rightarrow> val" where
  "setField i v (VStruct n fs) = VStruct n (AList.update i v fs)"
| "setField i v x = x"

definition storeField :: "nat option \<Rightarrow> nat \<Rightarrow> val \<Rightarrow> heap \<Rightarrow> heap" where
  "storeField addr i v h = (case addr of None \<Rightarrow> h | Some a \<Rightarrow> h[a := setField i v (h ! a)])"

fun injectFields ::
  "env \<Rightarrow> bean \<Rightarrow> nat option \<Rightarrow> nat \<Rightarrow> structField list \<Rightarrow> heap \<Rightarrow> outcome \<times> heap" where
  "injectFields e depBean addr i [] h = (Success, h)"
| "injectFields e depBean addr i (sf # rest) h =
     (case injectField e sf (addr \<noteq> None) depBean h of
        (Untouched, h1) \<Rightarrow> injectFields e depBean addr (Suc i) rest h1
      | (SetTo v, h1) \<Rightarrow> injectFields e depBean addr (Suc i) rest (storeField addr i v h1)
      | (SetPanics, h1) \<Rightarrow> (Panicked, h1))"

text \<open>
  \<open>injectIntoStruct\<close>: the guard on the chain, then the receiver must be a struct or a
  non-nil pointer to one; a struct that was not reached through a pointer is not
  addressable and none of its fields can be set.
\<close>

definition injectIntoStruct ::
  "env \<Rightarrow> bean \<Rightarrow> bean \<Rightarrow> string list \<Rightarrow> heap \<Rightarrow> outcome \<times> heap" where
  "injectIntoStruct e receiverBean depBean chain h =
     (if id_bean depBean \<in> set chain
      then (Failure (StructCycle (stringsJoin chain pathSep) (id_bean depBean)), h)
      else case instance_bean receiverBean of
        VPtr (TStruct n) (Some a) \<Rightarrow> injectFields e depBean (Some a) 0 (structFields e n) h
      | VStruct n fs \<Rightarrow> injectFields e depBean None 0 (structFields e n) h
      | _ \<Rightarrow> (Failure (ReceiverNotStruct (id_bean receiverBean)), h))"


section \<open>Injection: the depth-first traversal\<close>

text \<open>
  What lies outside the container: the heap, and two logs that record, in order, the calls
  made to the literal provider and the beans whose \<^verbatim>\<open>Initialize\<close> hook was invoked.
\<close>

record world =
  mem :: heap
  lpCalls :: "(string \<times> rtype) list"
  initCalls :: "string list"

text \<open>The state of \<open>injectDependencies\<close>: the container, the world and the three locals.\<close>

record injState =
  ctr :: Container
  wld :: world
  visited :: "string \<Rightarrow> bool"
  onPath :: "string \<Rightarrow> bool"
  path :: "string list"

fun joinLoop :: "string \<Rightarrow> nat \<Rightarrow> string list \<Rightarrow> string" where
  "joinLoop s i [] = s"
| "joinLoop s i (v # p) = joinLoop ((if i > 0 then s @ pathSep else s) @ v) (Suc i) p"

definition joinPath :: "string list \<Rightarrow> string \<Rightarrow> string" where
  "joinPath p lastId =
     (let s = joinLoop emptyString 0 p in
      if lastId \<noteq> emptyString then (if length s > 0 then s @ pathSep else s) @ lastId else s)"

definition zeroBean :: bean where
  "zeroBean = \<lparr>id_bean = [], beanType = None, instance_bean = VNil, singleton = False,
                hasDependencies = False, dependencies = []\<rparr>"

text \<open>
  The lookup of one dependency in the loop of \<open>visit\<close>: the registered bean, or for an
  expected type of kind String the value of the literal provider, stored as a new bean.
\<close>

definition literalBean :: "string \<Rightarrow> rtype \<Rightarrow> val \<Rightarrow> bean" where
  "literalBean depBeanID expectedType v =
     \<lparr>id_bean = depBeanID, beanType = Some expectedType, instance_bean = v, singleton = False,
      hasDependencies = False, dependencies = []\<rparr>"

definition storeBean :: "string \<Rightarrow> bean \<Rightarrow> injState \<Rightarrow> injState" where
  "storeBean k b st =
     st\<lparr>ctr := (ctr st)\<lparr>registeredBeans := (registeredBeans (ctr st))(k \<mapsto> b)\<rparr>\<rparr>"

definition logLiteralCall :: "string \<Rightarrow> rtype \<Rightarrow> injState \<Rightarrow> injState" where
  "logLiteralCall depBeanID expectedType st =
     st\<lparr>wld := (wld st)\<lparr>lpCalls := lpCalls (wld st) @ [(depBeanID, expectedType)]\<rparr>\<rparr>"

definition lookupDependency ::
  "env \<Rightarrow> string \<Rightarrow> bean \<Rightarrow> injState \<Rightarrow> (error + bean) \<times> injState" where
  "lookupDependency e depBeanID bn st =
     (case registeredBeans (ctr st) depBeanID of
        Some depBean \<Rightarrow> (Inr depBean, st)
      | None \<Rightarrow>
          (case requiredDependency (ctr st) depBeanID of
             None \<Rightarrow> (Inl (DependencyNotFound depBeanID (id_bean bn)), st)
           | Some expectedType \<Rightarrow>
               if kindOf expectedType = String then
                 (case literalProvider e of
                    None \<Rightarrow> (Inl (DependencyNotFound depBeanID (id_bean bn)), st)
                  | Some lp \<Rightarrow>
                      (case lp depBeanID expectedType of
                         (v, found, Some err) \<Rightarrow>
                           (Inl (LiteralProviderError depBeanID err),
                            logLiteralCall depBeanID expectedType st)
                       | (v, found, None) \<Rightarrow>
                           if found then
                             (Inr (literalBean depBeanID expectedType v),
                              storeBean depBeanID (literalBean depBeanID expectedType v)
                                (logLiteralCall depBeanID expectedType st))
                           else (Inl (DependencyNotFound depBeanID (id_bean bn)),
                                 logLiteralCall depBeanID expectedType st)))
               else (Inl (DependencyNotFound depBeanID (id_bean bn)), st)))"

definition enterNode :: "string \<Rightarrow> injState \<Rightarrow> injState" where
  "enterNode i st = st\<lparr>onPath := (onPath st)(i := True), path := path st @ [i]\<rparr>"

definition leaveNode :: "string \<Rightarrow> injState \<Rightarrow> injState" where
  "leaveNode i st =
     st\<lparr>onPath := (onPath st)(i := False), path := butlast (path st),
        visited := (visited st)(i := True)\<rparr>"

definition setMem :: "heap \<Rightarrow> injState \<Rightarrow> injState" where
  "setMem h st = st\<lparr>wld := (wld st)\<lparr>mem := h\<rparr>\<rparr>"

text \<open>\<^verbatim>\<open>bn = c.registeredBeans[id]\<close>: the zero bean when the key is absent.\<close>

definition reloadBean :: "string \<Rightarrow> injState \<Rightarrow> bean" where
  "reloadBean i st = (case registeredBeans (ctr st) i of Some b \<Rightarrow> b | None \<Rightarrow> zeroBean)"

fun visit :: "nat \<Rightarrow> env \<Rightarrow> string \<Rightarrow> injState \<Rightarrow> outcome \<times> injState"
  and visitDeps ::
    "nat \<Rightarrow> env \<Rightarrow> string \<Rightarrow> bean \<Rightarrow> string list \<Rightarrow> injState \<Rightarrow> outcome \<times> injState" where
  "visit 0 e i st = (FuelExhausted, st)"
| "visit (Suc n) e i st =
     (case registeredBeans (ctr st) i of
        None \<Rightarrow> (Failure (ReceiverNotFound i), st)
      | Some bn \<Rightarrow>
          if onPath st i then (Failure (CycleDetected (joinPath (path st) i)), st)
          else if visited st i then (Success, st)
          else
            if hasDependencies bn then
              (if instance_bean bn = VNil then (Failure (ReceiverNil (id_bean bn)), enterNode i st)
               else (case visitDeps n e i bn (dependencies bn) (enterNode i st) of
                       (Success, st2) \<Rightarrow> (Success, leaveNode i st2)
                     | (r, st2) \<Rightarrow> (r, st2)))
            else (Success, leaveNode i (enterNode i st)))"
| "visitDeps n e i bn [] st = (Success, st)"
| "visitDeps n e i bn (depBeanID # rest) st =
     (case lookupDependency e depBeanID bn st of
        (Inl err, st1) \<Rightarrow> (Failure err, st1)
      | (Inr depBean, st1) \<Rightarrow>
          (case visit n e depBeanID st1 of
             (Success, st2) \<Rightarrow>
               if instance_bean depBean = VNil
               then (Failure (DependencyNotInstantiated depBeanID (id_bean bn)), st2)
               else
                 (case injectIntoStruct e bn depBean (path st2) (mem (wld st2)) of
                    (Success, h) \<Rightarrow>
                      visitDeps n e i (reloadBean i (setMem h st2)) rest (setMem h st2)
                  | (Failure err, h) \<Rightarrow> (Failure (InjectWrap err), setMem h st2)
                  | (r, h) \<Rightarrow> (r, setMem h st2))
           | (r, st2) \<Rightarrow> (r, st2)))"

text \<open>
  \<^verbatim>\<open>for id := range c.registeredBeans\<close>: the runtime chooses the order. The order is a
  list of keys given from outside; a key that is not in the map is not produced.
\<close>

fun injectLoop :: "nat \<Rightarrow> env \<Rightarrow> string list \<Rightarrow> injState \<Rightarrow> outcome \<times> injState" where
  "injectLoop n e [] st = (Success, st)"
| "injectLoop n e (i # rest) st =
     (case registeredBeans (ctr st) i of
        None \<Rightarrow> injectLoop n e rest st
      | Some b \<Rightarrow>
          (case visit n e i st of
             (Success, st1) \<Rightarrow> injectLoop n e rest st1
           | (r, st1) \<Rightarrow> (r, st1)))"

definition injectDependencies ::
  "nat \<Rightarrow> env \<Rightarrow> string list \<Rightarrow> Container \<Rightarrow> world \<Rightarrow> outcome \<times> injState" where
  "injectDependencies n e ks c w =
     injectLoop n e ks
       \<lparr>ctr = c, wld = w, visited = (\<lambda>k. False), onPath = (\<lambda>k. False), path = []\<rparr>"


section \<open>Build\<close>

text \<open>
  The orders in which the four \<^verbatim>\<open>range\<close> loops of \<open>Build\<close> produce the keys of the
  maps: over the required dependencies, and three times over the registered beans.
\<close>

record schedule =
  reqOrder :: "string list"
  instOrder :: "string list"
  injOrder :: "string list"
  initOrder :: "string list"

text \<open>The body of the first loop: one required dependency against the registry.\<close>

definition checkRequired :: "env \<Rightarrow> Container \<Rightarrow> string \<Rightarrow> rtype \<Rightarrow> outcome" where
  "checkRequired e c beanID requiredType =
     (case registeredBeans c beanID of
        None \<Rightarrow>
          if kindOf requiredType = String \<and> literalProvider e \<noteq> None then Success
          else Failure (RequiredNotRegistered beanID)
      | Some regBean \<Rightarrow>
          (case kindOf requiredType of
             Struct \<Rightarrow>
               (case beanType regBean of
                  None \<Rightarrow> Panicked
                | Some registeredType \<Rightarrow>
                    if kindOf registeredType = Ptr \<and> elemOf registeredType = Some requiredType
                    then Success
                    else Failure (TypeMismatch beanID requiredType (beanType regBean)))
           | Interface \<Rightarrow>
               (case beanType regBean of
                  None \<Rightarrow> Panicked
                | Some registeredType \<Rightarrow>
                    if implements e registeredType requiredType then Success
                    else Failure (TypeMismatch beanID requiredType (beanType regBean)))
           | _ \<Rightarrow>
               if beanType regBean = Some requiredType then Success
               else Failure (TypeMismatch beanID requiredType (beanType regBean))))"

fun validateLoop :: "env \<Rightarrow> Container \<Rightarrow> string list \<Rightarrow> outcome" where
  "validateLoop e c [] = Success"
| "validateLoop e c (beanID # rest) =
     (case requiredDependency c beanID of
        None \<Rightarrow> validateLoop e c rest
      | Some requiredType \<Rightarrow>
          (case checkRequired e c beanID requiredType of
             Success \<Rightarrow> validateLoop e c rest
           | r \<Rightarrow> r))"

text \<open>The second loop: a bean without instance whose type is a pointer to a struct gets one.\<close>

fun instantiateLoop :: "string list \<Rightarrow> Container \<Rightarrow> heap \<Rightarrow> outcome \<times> Container \<times> heap" where
  "instantiateLoop [] c h = (Success, c, h)"
| "instantiateLoop (k # rest) c h =
     (case registeredBeans c k of
        None \<Rightarrow> instantiateLoop rest c h
      | Some bn \<Rightarrow>
          if instance_bean bn \<noteq> VNil then instantiateLoop rest c h
          else
            (case beanType bn of
               None \<Rightarrow> (Panicked, c, h)
             | Some (TPtr (TStruct n)) \<Rightarrow>
                 (case createInstance (TPtr (TStruct n)) h of
                    (Inl ierr, h1) \<Rightarrow> (Failure ierr, c, h1)
                  | (Inr inst, h1) \<Rightarrow>
                      instantiateLoop rest
                        (c\<lparr>registeredBeans := (registeredBeans c)(id_bean bn \<mapsto>
                             bn\<lparr>instance_bean := inst, singleton := True\<rparr>)\<rparr>) h1)
             | Some t \<Rightarrow> instantiateLoop rest c h))"

text \<open>The second traversal, which orders the identifiers for the initializers.\<close>

record ordState =
  visitedO :: "string \<Rightarrow> bool"
  onPathO :: "string \<Rightarrow> bool"
  order :: "string list"

fun orderVisit :: "nat \<Rightarrow> Container \<Rightarrow> string \<Rightarrow> ordState \<Rightarrow> outcome \<times> ordState"
  and orderDeps ::
    "nat \<Rightarrow> Container \<Rightarrow> string \<Rightarrow> string list \<Rightarrow> ordState \<Rightarrow> outcome \<times> ordState" where
  "orderVisit 0 c i st = (FuelExhausted, st)"
| "orderVisit (Suc n) c i st =
     (if visitedO st i then (Success, st)
      else if onPathO st i then (Failure (InitOrderCycle i), st)
      else
        let st1 = st\<lparr>onPathO := (onPathO st)(i := True)\<rparr>;
            bn = (case registeredBeans c i of Some b \<Rightarrow> b | None \<Rightarrow> zeroBean)
        in (case (if hasDependencies bn then orderDeps n c i (dependencies bn) st1
                  else (Success, st1)) of
              (Success, st2) \<Rightarrow>
                (Success, st2\<lparr>onPathO := (onPathO st2)(i := False),
                              visitedO := (visitedO st2)(i := True),
                              order := order st2 @ [i]\<rparr>)
            | (r, st2) \<Rightarrow> (r, st2)))"
| "orderDeps n c i [] st = (Success, st)"
| "orderDeps n c i (dep # rest) st =
     (case registeredBeans c dep of
        None \<Rightarrow> (Failure (InitOrderNotRegistered dep i), st)
      | Some b \<Rightarrow>
          (case orderVisit n c dep st of
             (Success, st1) \<Rightarrow> orderDeps n c i rest st1
           | (r, st1) \<Rightarrow> (r, st1)))"

fun orderLoop :: "nat \<Rightarrow> Container \<Rightarrow> string list \<Rightarrow> ordState \<Rightarrow> outcome \<times> ordState" where
  "orderLoop n c [] st = (Success, st)"
| "orderLoop n c (i # rest) st =
     (case registeredBeans c i of
        None \<Rightarrow> orderLoop n c rest st
      | Some b \<Rightarrow>
          (case orderVisit n c i st of
             (Success, st1) \<Rightarrow> orderLoop n c rest st1
           | (r, st1) \<Rightarrow> (r, st1)))"

text \<open>
  \<^verbatim>\<open>bn.instance.(Initializer)\<close>: the method of the dynamic type of the instance, bound
  to the instance.
\<close>

definition asInitializer :: "env \<Rightarrow> val \<Rightarrow> (heap \<Rightarrow> heap \<times> error option) option" where
  "asInitializer e v =
     (case typeOf v of
        None \<Rightarrow> None
      | Some t \<Rightarrow> (case initializeOf e t of None \<Rightarrow> None | Some m \<Rightarrow> Some (m v)))"

fun runInitializers :: "env \<Rightarrow> Container \<Rightarrow> string list \<Rightarrow> world \<Rightarrow> outcome \<times> world" where
  "runInitializers e c [] w = (Success, w)"
| "runInitializers e c (i # rest) w =
     (let bn = (case registeredBeans c i of Some b \<Rightarrow> b | None \<Rightarrow> zeroBean) in
      if instance_bean bn = VNil then runInitializers e c rest w
      else
        (case asInitializer e (instance_bean bn) of
           None \<Rightarrow> runInitializers e c rest w
         | Some initr \<Rightarrow>
             (case initr (mem w) of
                (h, Some ierr) \<Rightarrow>
                  (Failure (InitializerFailed i ierr),
                   w\<lparr>mem := h, initCalls := initCalls w @ [i]\<rparr>)
              | (h, None) \<Rightarrow>
                  runInitializers e c rest (w\<lparr>mem := h, initCalls := initCalls w @ [i]\<rparr>))))"

text \<open>
  The fuel of the two traversals: one more than the number of keys the schedule lists for
  the two maps. No path of distinct identifiers is longer.
\<close>

definition dfsFuel :: "schedule \<Rightarrow> nat" where
  "dfsFuel s = Suc (length (injOrder s) + length (reqOrder s))"

definition ordInit :: ordState where
  "ordInit = \<lparr>visitedO = (\<lambda>k. False), onPathO = (\<lambda>k. False), order = []\<rparr>"

text \<open>The steps of \<open>Build\<close> after the test of the flag.\<close>

definition buildSteps :: "env \<Rightarrow> schedule \<Rightarrow> Container \<Rightarrow> world \<Rightarrow> outcome \<times> Container \<times> world" where
  "buildSteps e s c w =
     (case validateLoop e c (reqOrder s) of
        Success \<Rightarrow>
          (case instantiateLoop (instOrder s) c (mem w) of
             (Success, c1, h1) \<Rightarrow>
               (case injectDependencies (dfsFuel s) e (injOrder s) c1 (w\<lparr>mem := h1\<rparr>) of
                  (Success, st) \<Rightarrow>
                    (case orderLoop (dfsFuel s) (ctr st) (initOrder s) ordInit of
                       (Success, ost) \<Rightarrow>
                         (case runInitializers e (ctr st) (order ost) (wld st) of
                            (r, w3) \<Rightarrow> (r, ctr st, w3))
                     | (r, ost) \<Rightarrow> (r, ctr st, wld st))
                | (r, st) \<Rightarrow> (r, ctr st, wld st))
           | (r, c1, h1) \<Rightarrow> (r, c1, w\<lparr>mem := h1\<rparr>))
      | r \<Rightarrow> (r, c, w))"

text \<open>
  \<open>Build\<close>: nothing to do when the flag is set. The deferred function sets the flag when
  the named result \<^verbatim>\<open>err\<close> is nil, which it is after a return of nil and also while a
  panic unwinds.
\<close>

definition Build :: "env \<Rightarrow> schedule \<Rightarrow> Container \<Rightarrow> world \<Rightarrow> outcome \<times> Container \<times> world" where
  "Build e s c w =
     (if built c then (Success, c, w)
      else case buildSteps e s c w of
        (r, c1, w1) \<Rightarrow>
          (r, (if r = Success \<or> r = Panicked then c1\<lparr>built := True\<rparr> else c1), w1))"


section \<open>Predicates of the statements\<close>

text \<open>
  Every bean is stored under its own identifier. \<open>Register\<close>, \<open>RegisterInstance\<close> and the
  traversal only store such beans.
\<close>

definition wfContainer :: "Container \<Rightarrow> bool" where
  "wfContainer c = (\<forall>k b. registeredBeans c k = Some b \<longrightarrow> id_bean b = k)"

text \<open>
  What a traversal may change in the container: beans are added, for identifiers that a
  required dependency of kind String names, and nothing else; the log of the provider grows.
\<close>

definition containerExtends :: "Container \<Rightarrow> Container \<Rightarrow> bool" where
  "containerExtends c c' =
     (built c' = built c \<and> requiredDependency c' = requiredDependency c \<and>
      (\<forall>k b. registeredBeans c k = Some b \<longrightarrow> registeredBeans c' k = Some b) \<and>
      (\<forall>k. registeredBeans c' k \<noteq> None \<longrightarrow>
           registeredBeans c k \<noteq> None \<or>
           (\<exists>t. requiredDependency c k = Some t \<and> kindOf t = String)) \<and>
      (wfContainer c \<longrightarrow> wfContainer c'))"

definition stateExtends :: "injState \<Rightarrow> injState \<Rightarrow> bool" where
  "stateExtends st st' =
     (containerExtends (ctr st) (ctr st') \<and> initCalls (wld st') = initCalls (wld st) \<and>
      (\<exists>calls. lpCalls (wld st') = lpCalls (wld st) @ calls))"

text \<open>
  Compatibility of a registered type with an expected type, in the words of the
  specification: a struct is expected, the bean is a pointer to exactly that struct; an
  interface is expected, the bean's type implements it; any other kind, the types are equal.
\<close>

definition compatibleSpec :: "env \<Rightarrow> rtype \<Rightarrow> rtype \<Rightarrow> bool" where
  "compatibleSpec e expectedType registeredType =
     (case expectedType of
        TStruct n \<Rightarrow> registeredType = TPtr (TStruct n)
      | TInterface n \<Rightarrow> implements e registeredType expectedType
      | _ \<Rightarrow> registeredType = expectedType)"


datatype rule = ExactFresh | Exact | InterfaceImpl | PtrFromValue | ValueFromPtr | PtrToPtr | NoRule






text \<open>
  The dependencies the traversals follow from an identifier, and what it means for a list
  of identifiers to be in dependency order: every dependency of an element stands before
  the element. \<open>hooked\<close> says that the bean of an identifier has an instance whose type
  has the \<^verbatim>\<open>Initialize\<close> method.
\<close>

definition depsOf :: "(string \<rightharpoonup> bean) \<Rightarrow> string \<Rightarrow> string list" where
  "depsOf m k =
     (case m k of
        None \<Rightarrow> []
      | Some b \<Rightarrow> if hasDependencies b then dependencies b else [])"

definition dependencyOrder :: "(string \<rightharpoonup> bean) \<Rightarrow> string list \<Rightarrow> bool" where
  "dependencyOrder m ord =
     (\<forall>i<length ord. \<forall>d\<in>set (depsOf m (ord ! i)). d \<in> set (take i ord))"

definition hooked :: "env \<Rightarrow> (string \<rightharpoonup> bean) \<Rightarrow> string \<Rightarrow> bool" where
  "hooked e m k =
     (case m k of
        None \<Rightarrow> False
      | Some b \<Rightarrow> instance_bean b \<noteq> VNil \<and> asInitializer e (instance_bean b) \<noteq> None)"

text \<open>The invariant of the second traversal.\<close>

definition ordInv :: "Container \<Rightarrow> ordState \<Rightarrow> bool" where
  "ordInv c st =
     ((\<forall>k. visitedO st k = (k \<in> set (order st))) \<and> distinct (order st) \<and>
      dependencyOrder (registeredBeans c) (order st) \<and>
      (\<forall>k\<in>set (order st). registeredBeans c k \<noteq> None))"

text \<open>
  What a successful visit of the second traversal does to the state: the path marks are
  restored, the order is extended, visited nodes stay visited, and a node that is on the
  path and not yet visited stays so.
\<close>

definition ordStep :: "ordState \<Rightarrow> ordState \<Rightarrow> bool" where
  "ordStep st st' =
     (onPathO st' = onPathO st \<and> (\<exists>new. order st' = order st @ new) \<and>
      (\<forall>k. visitedO st k \<longrightarrow> visitedO st' k) \<and>
      (\<forall>k. onPathO st k \<and> \<not> visitedO st k \<longrightarrow> \<not> visitedO st' k))"

text \<open>The outcomes of the first traversal: the errors it makes itself, at top level.\<close>

definition injectionError :: "outcome \<Rightarrow> bool" where
  "injectionError r =
     (case r of
        Failure (ReceiverNotFound i) \<Rightarrow> True
      | Failure (CycleDetected p) \<Rightarrow> True
      | Failure (ReceiverNil i) \<Rightarrow> True
      | Failure (LiteralProviderError d x) \<Rightarrow> True
      | Failure (DependencyNotFound d i) \<Rightarrow> True
      | Failure (DependencyNotInstantiated d i) \<Rightarrow> True
      | Failure (InjectWrap x) \<Rightarrow> True
      | Failure x \<Rightarrow> False
      | _ \<Rightarrow> True)"

section \<open>The types of the package's tests\<close>

text \<open>
  The struct types of the test files, with their tags, as an environment: \<^verbatim>\<open>Service\<close>,
  \<^verbatim>\<open>Config\<close>, \<^verbatim>\<open>Logger\<close>, the cycle types and the three \<^verbatim>\<open>order\<close> types, whose
  pointers implement \<^verbatim>\<open>Initializer\<close>.
\<close>

definition mkField :: "string \<Rightarrow> rtype \<Rightarrow> string \<Rightarrow> structField" where
  "mkField n t tag = \<lparr>fieldName = n, fieldType = t, fieldTag = Some tag, fieldExported = True\<rparr>"

definition testFields :: "string \<Rightarrow> structField list" where
  "testFields n =
     (if n = ''Service'' then
        [mkField ''Config'' (TPtr (TStruct ''Config'')) ''ServiceBeanConfig'',
         mkField ''Logger'' (TPtr (TStruct ''Logger'')) ''ServiceBeanLogger'']
      else if n = ''Config'' then [mkField ''WorkingDir'' TString ''WorkingDir'']
      else if n = ''Logger'' then
        [\<lparr>fieldName = ''_'', fieldType = TOther ''byte'', fieldTag = None,
          fieldExported = False\<rparr>]
      else if n = ''cycleA'' then [mkField ''B'' (TPtr (TStruct ''cycleB'')) ''B'']
      else if n = ''cycleB'' then [mkField ''A'' (TPtr (TStruct ''cycleA'')) ''A'']
      else if n = ''selfCycleA'' then [mkField ''A'' (TPtr (TStruct ''selfCycleA'')) ''Aself'']
      else if n = ''orderA'' then [mkField ''B'' (TPtr (TStruct ''orderB'')) ''OrderB'']
      else if n = ''orderC'' then [mkField ''A'' (TPtr (TStruct ''orderA'')) ''OrderA'']
      else [])"

definition testInitializeOf :: "rtype \<Rightarrow> (val \<Rightarrow> heap \<Rightarrow> heap \<times> error option) option" where
  "testInitializeOf t =
     (if t = TPtr (TStruct ''orderA'') \<or> t = TPtr (TStruct ''orderB'') \<or> t = TPtr (TStruct ''orderC'')
      then Some (\<lambda>v h. (h, None)) else None)"

definition testEnv :: env where
  "testEnv = \<lparr>structFields = testFields, implements = (\<lambda>t u. False),
              initializeOf = testInitializeOf, literalProvider = None\<rparr>"

definition emptyWorld :: world where
  "emptyWorld = \<lparr>mem = [], lpCalls = [], initCalls = []\<rparr>"

definition sameOrder :: "string list \<Rightarrow> schedule" where
  "sameOrder ks = \<lparr>reqOrder = ks, instOrder = ks, injOrder = ks, initOrder = ks\<rparr>"

text \<open>Containers of the tests: only \<^verbatim>\<open>Config\<close>, registered by type; the built empty one.\<close>

definition configOnly :: Container where
  "configOnly = snd (Register testEnv ''Config'' (Some (TStruct ''Config'')) New)"

definition builtEmpty :: Container where
  "builtEmpty = fst (snd (Build testEnv (sameOrder []) New emptyWorld))"

text \<open>\<^verbatim>\<open>Config\<close> by type, and a \<^verbatim>\<open>Logger\<close> registered under the name of its string.\<close>

definition configMismatch :: Container where
  "configMismatch = snd (Register testEnv ''WorkingDir'' (Some (TStruct ''Logger'')) configOnly)"













text \<open>
  The chain of the initializer tests: \<^verbatim>\<open>orderC\<close> depends on \<^verbatim>\<open>orderA\<close>, which depends on
  \<^verbatim>\<open>orderB\<close>; and an environment in which the hook of \<^verbatim>\<open>orderA\<close> fails.
\<close>

definition orderChain :: Container where
  "orderChain =
     snd (Register testEnv ''OrderB'' (Some (TPtr (TStruct ''orderB'')))
       (snd (Register testEnv ''OrderA'' (Some (TPtr (TStruct ''orderA'')))
         (snd (Register testEnv ''OrderC'' (Some (TPtr (TStruct ''orderC''))) New)))))"

definition failingInitializeOf :: "rtype \<Rightarrow> (val \<Rightarrow> heap \<Rightarrow> heap \<times> error option) option" where
  "failingInitializeOf t =
     (if t = TPtr (TStruct ''orderA'') then Some (\<lambda>v h. (h, Some (UserError ''order violation'')))
      else testInitializeOf t)"

definition failingEnv :: env where
  "failingEnv = testEnv\<lparr>initializeOf := failingInitializeOf\<rparr>"

section \<open>Case analysis of the traversal\<close>

lemma lookupDependency_cases:
  assumes "lookupDependency e d bn st = (x, st1)"
  obtains
    (found) b where "registeredBeans (ctr st) d = Some b" "x = Inr b" "st1 = st"
  | (missing) "registeredBeans (ctr st) d = None"
      "x = Inl (DependencyNotFound d (id_bean bn))" "st1 = st"
      "\<forall>t lp. requiredDependency (ctr st) d = Some t \<and> kindOf t = String
          \<longrightarrow> literalProvider e \<noteq> Some lp"
  | (lpError) t lp v f err where "registeredBeans (ctr st) d = None"
      "requiredDependency (ctr st) d = Some t" "kindOf t = String" "literalProvider e = Some lp"
      "lp d t = (v, f, Some err)" "x = Inl (LiteralProviderError d err)"
      "st1 = logLiteralCall d t st"
  | (lpNotFound) t lp v where "registeredBeans (ctr st) d = None"
      "requiredDependency (ctr st) d = Some t" "kindOf t = String" "literalProvider e = Some lp"
      "lp d t = (v, False, None)" "x = Inl (DependencyNotFound d (id_bean bn))"
      "st1 = logLiteralCall d t st"
  | (lpFound) t lp v where "registeredBeans (ctr st) d = None"
      "requiredDependency (ctr st) d = Some t" "kindOf t = String" "literalProvider e = Some lp"
      "lp d t = (v, True, None)" "x = Inr (literalBean d t v)"
      "st1 = storeBean d (literalBean d t v) (logLiteralCall d t st)"
proof (cases "registeredBeans (ctr st) d")
  case (Some b)
  with assms have "x = Inr b" "st1 = st" by (auto simp: lookupDependency_def)
  with Some found show ?thesis by blast
next
  case None
  show ?thesis
  proof (cases "requiredDependency (ctr st) d")
    case rn: None
    with assms None have "x = Inl (DependencyNotFound d (id_bean bn))" "st1 = st"
      by (auto simp: lookupDependency_def)
    with None rn missing show ?thesis by simp
  next
    case (Some t)
    show ?thesis
    proof (cases "kindOf t = String")
      case False
      with assms None Some have "x = Inl (DependencyNotFound d (id_bean bn))" "st1 = st"
        by (auto simp: lookupDependency_def)
      with None Some False missing show ?thesis by simp
    next
      case True
      show ?thesis
      proof (cases "literalProvider e")
        case ln: None
        with assms None Some True have "x = Inl (DependencyNotFound d (id_bean bn))" "st1 = st"
          by (auto simp: lookupDependency_def)
        with None ln missing show ?thesis by simp
      next
        case (Some lp)
        note rq = \<open>requiredDependency (ctr st) d = Some t\<close>
        note kd = \<open>kindOf t = String\<close>
        obtain v f eo where L: "lp d t = (v, f, eo)" by (cases "lp d t")
        show ?thesis
        proof (cases eo)
          case es: (Some err)
          with assms None rq kd Some L
          have X: "x = Inl (LiteralProviderError d err)" "st1 = logLiteralCall d t st"
            by (auto simp: lookupDependency_def)
          from L es have L': "lp d t = (v, f, Some err)" by simp
          show ?thesis by (rule lpError[OF None rq kd Some L' X])
        next
          case en: None
          show ?thesis
          proof (cases f)
            case True
            with assms None rq kd Some L en
            have X: "x = Inr (literalBean d t v)"
              "st1 = storeBean d (literalBean d t v) (logLiteralCall d t st)"
              by (auto simp: lookupDependency_def)
            from L en True have L': "lp d t = (v, True, None)" by simp
            show ?thesis by (rule lpFound[OF None rq kd Some L' X])
          next
            case False
            with assms None rq kd Some L en
            have X: "x = Inl (DependencyNotFound d (id_bean bn))" "st1 = logLiteralCall d t st"
              by (auto simp: lookupDependency_def)
            from L en False have L': "lp d t = (v, False, None)" by simp
            show ?thesis by (rule lpNotFound[OF None rq kd Some L' X])
          qed
        qed
      qed
    qed
  qed
qed

lemma visit_Suc_cases:
  assumes "visit (Suc n) e i st = (r, st')"
  obtains
    (notfound) "registeredBeans (ctr st) i = None" "r = Failure (ReceiverNotFound i)" "st' = st"
  | (cycle) bn where "registeredBeans (ctr st) i = Some bn" "onPath st i"
      "r = Failure (CycleDetected (joinPath (path st) i))" "st' = st"
  | (seen) bn where "registeredBeans (ctr st) i = Some bn" "\<not> onPath st i" "visited st i"
      "r = Success" "st' = st"
  | (leaf) bn where "registeredBeans (ctr st) i = Some bn" "\<not> onPath st i" "\<not> visited st i"
      "\<not> hasDependencies bn" "r = Success" "st' = leaveNode i (enterNode i st)"
  | (nilrecv) bn where "registeredBeans (ctr st) i = Some bn" "\<not> onPath st i" "\<not> visited st i"
      "hasDependencies bn" "instance_bean bn = VNil" "r = Failure (ReceiverNil (id_bean bn))"
      "st' = enterNode i st"
  | (depsOk) bn st2 where "registeredBeans (ctr st) i = Some bn" "\<not> onPath st i" "\<not> visited st i"
      "hasDependencies bn" "instance_bean bn \<noteq> VNil"
      "visitDeps n e i bn (dependencies bn) (enterNode i st) = (Success, st2)"
      "r = Success" "st' = leaveNode i st2"
  | (depsFail) bn where "registeredBeans (ctr st) i = Some bn" "\<not> onPath st i" "\<not> visited st i"
      "hasDependencies bn" "instance_bean bn \<noteq> VNil"
      "visitDeps n e i bn (dependencies bn) (enterNode i st) = (r, st')" "r \<noteq> Success"
proof (cases "registeredBeans (ctr st) i")
  case None
  with assms have "r = Failure (ReceiverNotFound i)" "st' = st" by auto
  with None notfound show ?thesis by blast
next
  case (Some bn)
  show ?thesis
  proof (cases "onPath st i")
    case True
    with assms Some have "r = Failure (CycleDetected (joinPath (path st) i))" "st' = st" by auto
    with Some True cycle show ?thesis by blast
  next
    case np: False
    show ?thesis
    proof (cases "visited st i")
      case True
      with assms Some np have "r = Success" "st' = st" by auto
      with Some np True seen show ?thesis by blast
    next
      case nv: False
      show ?thesis
      proof (cases "hasDependencies bn")
        case False
        with assms Some np nv have "r = Success" "st' = leaveNode i (enterNode i st)" by auto
        with Some np nv False leaf show ?thesis by blast
      next
        case hd: True
        show ?thesis
        proof (cases "instance_bean bn = VNil")
          case True
          with assms Some np nv hd have "r = Failure (ReceiverNil (id_bean bn))" "st' = enterNode i st"
            by auto
          with Some np nv hd True nilrecv show ?thesis by blast
        next
          case inst: False
          obtain r2 st2 where V: "visitDeps n e i bn (dependencies bn) (enterNode i st) = (r2, st2)"
            by (cases "visitDeps n e i bn (dependencies bn) (enterNode i st)")
          show ?thesis
          proof (cases "r2 = Success")
            case True
            with assms Some np nv hd inst V have "r = Success" "st' = leaveNode i st2" by auto
            with Some np nv hd inst V True depsOk show ?thesis by blast
          next
            case False
            with assms Some np nv hd inst V have "r = r2" "st' = st2"
              by (simp_all split: outcome.splits)
            with Some np nv hd inst V False depsFail show ?thesis by blast
          qed
        qed
      qed
    qed
  qed
qed

lemma visitDeps_Cons_cases:
  assumes "visitDeps n e i bn (d # rest) st = (r, st')"
  obtains
    (lookFail) err where "lookupDependency e d bn st = (Inl err, st')" "r = Failure err"
  | (visitFail) depBean st1 where "lookupDependency e d bn st = (Inr depBean, st1)"
      "visit n e d st1 = (r, st')" "r \<noteq> Success"
  | (notInst) depBean st1 where "lookupDependency e d bn st = (Inr depBean, st1)"
      "visit n e d st1 = (Success, st')" "instance_bean depBean = VNil"
      "r = Failure (DependencyNotInstantiated d (id_bean bn))"
  | (injFail) depBean st1 st2 err h where "lookupDependency e d bn st = (Inr depBean, st1)"
      "visit n e d st1 = (Success, st2)" "instance_bean depBean \<noteq> VNil"
      "injectIntoStruct e bn depBean (path st2) (mem (wld st2)) = (Failure err, h)"
      "r = Failure (InjectWrap err)" "st' = setMem h st2"
  | (injPanic) depBean st1 st2 h where "lookupDependency e d bn st = (Inr depBean, st1)"
      "visit n e d st1 = (Success, st2)" "instance_bean depBean \<noteq> VNil"
      "injectIntoStruct e bn depBean (path st2) (mem (wld st2)) = (r, h)"
      "r = Panicked \<or> r = FuelExhausted" "st' = setMem h st2"
  | (step) depBean st1 st2 h where "lookupDependency e d bn st = (Inr depBean, st1)"
      "visit n e d st1 = (Success, st2)" "instance_bean depBean \<noteq> VNil"
      "injectIntoStruct e bn depBean (path st2) (mem (wld st2)) = (Success, h)"
      "visitDeps n e i (reloadBean i (setMem h st2)) rest (setMem h st2) = (r, st')"
proof -
  obtain x st1 where L: "lookupDependency e d bn st = (x, st1)"
    by (cases "lookupDependency e d bn st")
  show ?thesis
  proof (cases x)
    case (Inl err)
    with assms L have "r = Failure err" "st' = st1" by simp_all
    with L Inl lookFail show ?thesis by blast
  next
    case (Inr depBean)
    obtain r2 st2 where V: "visit n e d st1 = (r2, st2)" by (cases "visit n e d st1")
    show ?thesis
    proof (cases "r2 = Success")
      case False
      with assms L Inr V have "r = r2" "st' = st2" by (simp_all split: outcome.splits)
      with L Inr V False visitFail show ?thesis by blast
    next
      case True
      show ?thesis
      proof (cases "instance_bean depBean = VNil")
        case True
        with assms L Inr V \<open>r2 = Success\<close>
        have "r = Failure (DependencyNotInstantiated d (id_bean bn))" "st' = st2" by simp_all
        with L Inr V \<open>r2 = Success\<close> True notInst show ?thesis by blast
      next
        case False
        obtain r3 h where I: "injectIntoStruct e bn depBean (path st2) (mem (wld st2)) = (r3, h)"
          by (cases "injectIntoStruct e bn depBean (path st2) (mem (wld st2))")
        show ?thesis
        proof (cases r3)
          case Success
          with assms L Inr V \<open>r2 = Success\<close> False I
          have "visitDeps n e i (reloadBean i (setMem h st2)) rest (setMem h st2) = (r, st')" by simp
          with L Inr V \<open>r2 = Success\<close> False I Success step show ?thesis by blast
        next
          case (Failure err)
          with assms L Inr V \<open>r2 = Success\<close> False I
          have "r = Failure (InjectWrap err)" "st' = setMem h st2" by simp_all
          with L Inr V \<open>r2 = Success\<close> False I Failure injFail show ?thesis by blast
        next
          case Panicked
          with assms L Inr V \<open>r2 = Success\<close> False I
          have "r = Panicked" "st' = setMem h st2" by simp_all
          with L Inr V \<open>r2 = Success\<close> False I Panicked injPanic show ?thesis by blast
        next
          case FuelExhausted
          with assms L Inr V \<open>r2 = Success\<close> False I
          have "r = FuelExhausted" "st' = setMem h st2" by simp_all
          with L Inr V \<open>r2 = Success\<close> False I FuelExhausted injPanic show ?thesis by blast
        qed
      qed
    qed
  qed
qed

text \<open>
  A relation between states that every step of the traversal respects holds between the
  state before and the state after a visit.
\<close>

lemma visit_rel:
  assumes refl: "\<And>st. R st st"
    and trans: "\<And>a b c. R a b \<Longrightarrow> R b c \<Longrightarrow> R a c"
    and enter: "\<And>i st. R st (enterNode i st)"
    and leave: "\<And>i st. R st (leaveNode i st)"
    and look: "\<And>d bn st x st1. lookupDependency e d bn st = (x, st1) \<Longrightarrow> R st st1"
    and heap: "\<And>bn dep st r h.
           injectIntoStruct e bn dep (path st) (mem (wld st)) = (r, h) \<Longrightarrow> R st (setMem h st)"
  shows "visit n e i st = (r, st') \<Longrightarrow> R st st'"
    and "visitDeps n e i bn ds st = (r, st') \<Longrightarrow> R st st'"
proof -
  have deps: "R st st'"
    if V: "\<And>i st r st'. visit n e i st = (r, st') \<Longrightarrow> R st st'"
      and D: "visitDeps n e i bn ds st = (r, st')"
    for n i bn ds st r st'
    using D
  proof (induction ds arbitrary: bn st)
    case Nil
    then have "st' = st" by simp
    then show ?case using refl by simp
  next
    case (Cons d rest)
    from Cons.prems show ?case
    proof (cases rule: visitDeps_Cons_cases)
      case (lookFail err)
      show ?thesis by (rule look[OF lookFail(1)])
    next
      case (visitFail depBean st1)
      show ?thesis by (rule trans[OF look[OF visitFail(1)] V[OF visitFail(2)]])
    next
      case (notInst depBean st1)
      show ?thesis by (rule trans[OF look[OF notInst(1)] V[OF notInst(2)]])
    next
      case (injFail depBean st1 st2 err h)
      show ?thesis unfolding injFail(6)
        by (rule trans[OF trans[OF look[OF injFail(1)] V[OF injFail(2)]] heap[OF injFail(4)]])
    next
      case (injPanic depBean st1 st2 h)
      show ?thesis unfolding injPanic(6)
        by (rule trans[OF trans[OF look[OF injPanic(1)] V[OF injPanic(2)]] heap[OF injPanic(4)]])
    next
      case (step depBean st1 st2 h)
      show ?thesis
        by (rule trans[OF trans[OF trans[OF look[OF step(1)] V[OF step(2)]] heap[OF step(4)]]
              Cons.IH[OF step(5)]])
    qed
  qed
  have vis: "\<And>i st r st'. visit n e i st = (r, st') \<Longrightarrow> R st st'"
  proof (induction n)
    case 0
    then have "st' = st" by simp
    then show ?case using refl by simp
  next
    case (Suc n)
    from Suc.prems show ?case
    proof (cases rule: visit_Suc_cases)
      case notfound
      show ?thesis unfolding notfound(3) by (rule refl)
    next
      case (cycle bn)
      show ?thesis unfolding cycle(4) by (rule refl)
    next
      case (seen bn)
      show ?thesis unfolding seen(5) by (rule refl)
    next
      case (leaf bn)
      show ?thesis unfolding leaf(6) by (rule trans[OF enter leave])
    next
      case (nilrecv bn)
      show ?thesis unfolding nilrecv(7) by (rule enter)
    next
      case (depsOk bn st2)
      show ?thesis unfolding depsOk(8)
        by (rule trans[OF trans[OF enter deps[OF Suc.IH depsOk(6)]] leave])
    next
      case (depsFail bn)
      show ?thesis by (rule trans[OF enter deps[OF Suc.IH depsFail(6)]])
    qed
  qed
  show "visit n e i st = (r, st') \<Longrightarrow> R st st'" by (rule vis)
  show "visitDeps n e i bn ds st = (r, st') \<Longrightarrow> R st st'" by (rule deps[OF vis])
qed

section \<open>What the traversal and the loops of Build leave unchanged\<close>

lemma containerExtends_refl: "containerExtends c c"
  by (simp add: containerExtends_def)

lemma containerExtends_trans:
  "containerExtends a b \<Longrightarrow> containerExtends b c \<Longrightarrow> containerExtends a c"
  unfolding containerExtends_def by (intro conjI; (simp; fail | metis))

lemma stateExtends_refl: "stateExtends st st"
  by (simp add: stateExtends_def containerExtends_refl)

lemma stateExtends_trans:
  "stateExtends a b \<Longrightarrow> stateExtends b c \<Longrightarrow> stateExtends a c"
  unfolding stateExtends_def using containerExtends_trans by fastforce

lemma stateExtends_enter: "stateExtends st (enterNode i st)"
  by (simp add: stateExtends_def enterNode_def containerExtends_refl)

lemma stateExtends_leave: "stateExtends st (leaveNode i st)"
  by (simp add: stateExtends_def leaveNode_def containerExtends_refl)

lemma stateExtends_setMem: "stateExtends st (setMem h st)"
  by (simp add: stateExtends_def setMem_def containerExtends_refl)

lemma stateExtends_lookup:
  assumes "lookupDependency e d bn st = (x, st1)"
  shows "stateExtends st st1"
  using assms
proof (cases rule: lookupDependency_cases)
  case (lpFound t lp v)
  then show ?thesis
    by (auto simp: stateExtends_def containerExtends_def storeBean_def logLiteralCall_def
        wfContainer_def literalBean_def)
qed (auto simp: stateExtends_def containerExtends_refl logLiteralCall_def)

lemma visit_extends:
  "visit n e i st = (r, st') \<Longrightarrow> stateExtends st st'"
  "visitDeps n e i bn ds st = (r, st') \<Longrightarrow> stateExtends st st'"
  by (rule visit_rel[where R = stateExtends, OF stateExtends_refl stateExtends_trans
        stateExtends_enter stateExtends_leave stateExtends_lookup stateExtends_setMem]; assumption)+

lemma injectLoop_extends:
  "injectLoop n e ks st = (r, st') \<Longrightarrow> stateExtends st st'"
proof (induction ks arbitrary: st)
  case Nil
  then show ?case by (simp add: stateExtends_refl)
next
  case (Cons k ks)
  show ?case
  proof (cases "registeredBeans (ctr st) k")
    case None
    with Cons show ?thesis by simp
  next
    case (Some b)
    obtain r1 st1 where V: "visit n e k st = (r1, st1)" by (cases "visit n e k st")
    note E = visit_extends(1)[OF V]
    show ?thesis
    proof (cases "r1 = Success")
      case True
      with Cons.prems Some V have "injectLoop n e ks st1 = (r, st')" by simp
      from stateExtends_trans[OF E Cons.IH[OF this]] show ?thesis .
    next
      case False
      with Cons.prems Some V have "st' = st1" by (simp split: outcome.splits)
      with E show ?thesis by simp
    qed
  qed
qed


lemma checkForDependency_frame:
  "checkForDependency e bt c = Some (has, deps, c1) \<Longrightarrow>
     built c1 = built c \<and> registeredBeans c1 = registeredBeans c"
  by (auto simp: checkForDependency_def split: rtype.splits prod.splits)

lemma checkForDependency_Ptr: "\<exists>has deps c1. checkForDependency e (TPtr t) c = Some (has, deps, c1)"
  by (auto simp: checkForDependency_def split: rtype.splits prod.splits)

lemma checkForDependency_not_Struct:
  "kindOf t \<noteq> Struct \<Longrightarrow> \<exists>has deps c1. checkForDependency e t c = Some (has, deps, c1)"
  by (cases t) (auto simp: checkForDependency_def split: rtype.splits prod.splits)

lemma instantiateLoop_built:
  "instantiateLoop ks c h = (r, c', h') \<Longrightarrow>
     built c' = built c \<and> requiredDependency c' = requiredDependency c"
proof (induction ks arbitrary: c h)
  case Nil
  then show ?case by simp
next
  case (Cons k ks)
  show ?case
  proof (cases "registeredBeans c k")
    case None
    with Cons show ?thesis by simp
  next
    case (Some bn)
    show ?thesis
    proof (cases "instance_bean bn \<noteq> VNil")
      case True
      with Cons Some show ?thesis by simp
    next
      case False
      then have nil: "instance_bean bn = VNil" by simp
      show ?thesis
      proof (cases "\<exists>n. beanType bn = Some (TPtr (TStruct n))")
        case False
        with Cons.prems Some nil have "(\<exists>t. beanType bn = Some t \<and> instantiateLoop ks c h = (r, c', h')) \<or> (c' = c)"
          by (auto split: option.splits rtype.splits)
        with Cons.IH[of c h] show ?thesis by auto
      next
        case True
        then obtain n where T: "beanType bn = Some (TPtr (TStruct n))" by blast
        define c1 where "c1 = c\<lparr>registeredBeans := (registeredBeans c)(id_bean bn \<mapsto>
              bn\<lparr>instance_bean := VPtr (TStruct n) (Some (length h)), singleton := True\<rparr>)\<rparr>"
        from Cons.prems Some nil T
        have L: "instantiateLoop ks c1 (h @ [zeroVal (TStruct n)]) = (r, c', h')"
          by (simp add: createInstance_def reflectNew_def c1_def)
        from Cons.IH[OF L] show ?thesis by (simp add: c1_def)
      qed
    qed
  qed
qed

lemma injectDependencies_extends:
  "injectDependencies n e ks c w = (r, st) \<Longrightarrow> containerExtends c (ctr st)"
  unfolding injectDependencies_def
  by (drule injectLoop_extends) (simp add: stateExtends_def)

lemma buildSteps_built:
  assumes "buildSteps e s c w = (r, c', w')"
  shows "built c' = built c \<and> requiredDependency c' = requiredDependency c"
proof (cases "validateLoop e c (reqOrder s) = Success")
  case False
  with assms have "c' = c" by (auto simp: buildSteps_def split: outcome.splits)
  then show ?thesis by simp
next
  case True
  obtain r1 c1 h1 where I: "instantiateLoop (instOrder s) c (mem w) = (r1, c1, h1)"
    by (cases "instantiateLoop (instOrder s) c (mem w)")
  note B1 = instantiateLoop_built[OF I]
  show ?thesis
  proof (cases "r1 = Success")
    case False
    with assms True I have "c' = c1" by (auto simp: buildSteps_def split: outcome.splits)
    with B1 show ?thesis by simp
  next
    case r1: True
    obtain r2 st where J: "injectDependencies (dfsFuel s) e (injOrder s) c1 (w\<lparr>mem := h1\<rparr>) = (r2, st)"
      by (cases "injectDependencies (dfsFuel s) e (injOrder s) c1 (w\<lparr>mem := h1\<rparr>)")
    from injectDependencies_extends[OF J] B1
    have B2: "built (ctr st) = built c" "requiredDependency (ctr st) = requiredDependency c"
      by (simp_all add: containerExtends_def)
    from assms True I r1 J have "c' = ctr st"
      by (auto simp: buildSteps_def split: outcome.splits prod.splits)
    with B2 show ?thesis by simp
  qed
qed

section \<open>The validation loop\<close>

lemma validateLoop_Success:
  "(validateLoop e c ks = Success) =
     (\<forall>k\<in>set ks. \<forall>t. requiredDependency c k = Some t \<longrightarrow> checkRequired e c k t = Success)"
  by (induction ks) (auto split: option.splits outcome.splits)

lemma validateLoop_first:
  "validateLoop e c ks \<noteq> Success \<Longrightarrow>
     \<exists>k\<in>set ks. \<exists>t. requiredDependency c k = Some t \<and> checkRequired e c k t = validateLoop e c ks"
  by (induction ks) (auto split: option.splits outcome.splits)

lemma Build_validation_fails:
  assumes "\<not> built c" and "validateLoop e c (reqOrder s) \<noteq> Success"
  shows "Build e s c w =
           (validateLoop e c (reqOrder s),
            (if validateLoop e c (reqOrder s) = Panicked then c\<lparr>built := True\<rparr> else c), w)"
  using assms by (auto simp: Build_def buildSteps_def split: outcome.splits)

section \<open>The containers of the tests, evaluated\<close>

lemma lower_workingdir: "toLower ''WorkingDir'' = ''workingdir''" by code_simp
lemma lower_config: "toLower ''Config'' = ''config''" by code_simp

lemma configOnly_req: "requiredDependency configOnly = [''workingdir'' \<mapsto> TString]"
  by (simp add: configOnly_def Register_def checkForDependency_def New_def testEnv_def
      testFields_def mkField_def checkField_def requireField_def lower_workingdir lower_config
      emptyString_def Let_def)

lemma configMismatch_req: "requiredDependency configMismatch = [''workingdir'' \<mapsto> TString]"
  by (simp add: configMismatch_def configOnly_def Register_def checkForDependency_def New_def testEnv_def
      testFields_def mkField_def checkField_def requireField_def lower_workingdir lower_config
      emptyString_def Let_def)

section \<open>Field injection against its specification\<close>







section \<open>Lower-casing\<close>

lemma toLowerChar_idem: "toLowerChar (toLowerChar c) = toLowerChar c"
proof (cases "65 \<le> (of_char c :: nat) \<and> (of_char c :: nat) \<le> 90")
  case True
  then have t: "toLowerChar c = char_of ((of_char c :: nat) + 32)"
    by (simp add: toLowerChar_def)
  from True have "(of_char (char_of ((of_char c :: nat) + 32)) :: nat) = of_char c + 32"
    by (simp add: of_char_of)
  with t have "(of_char (toLowerChar c) :: nat) = of_char c + 32" by simp
  with True have "\<not> (65 \<le> (of_char (toLowerChar c) :: nat) \<and> (of_char (toLowerChar c) :: nat) \<le> 90)"
    by simp
  then show ?thesis unfolding toLowerChar_def[of "toLowerChar c"] by presburger
next
  case False
  then have "toLowerChar c = c" unfolding toLowerChar_def by presburger
  then show ?thesis by simp
qed

lemma toLower_idem: "toLower (toLower s) = toLower s"
  by (simp add: toLower_def toLowerChar_idem)




section \<open>The calls to the literal provider\<close>










section \<open>The steps of Build\<close>





section \<open>The lookup of a dependency\<close>









section \<open>The order of the initializers\<close>

lemma orderVisit_Suc_cases:
  assumes "orderVisit (Suc n) c i st = (r, st')"
  obtains
    (seen) "visitedO st i" "r = Success" "st' = st"
  | (cycle) "\<not> visitedO st i" "onPathO st i" "r = Failure (InitOrderCycle i)" "st' = st"
  | (leaf) "\<not> visitedO st i" "\<not> onPathO st i" "depsOf (registeredBeans c) i = []"
      "r = Success"
      "st' = st\<lparr>onPathO := ((onPathO st)(i := True))(i := False),
                 visitedO := (visitedO st)(i := True), order := order st @ [i]\<rparr>"
  | (depsOk) st2 where "\<not> visitedO st i" "\<not> onPathO st i"
      "orderDeps n c i (depsOf (registeredBeans c) i) (st\<lparr>onPathO := (onPathO st)(i := True)\<rparr>)
         = (Success, st2)"
      "r = Success"
      "st' = st2\<lparr>onPathO := (onPathO st2)(i := False), visitedO := (visitedO st2)(i := True),
                  order := order st2 @ [i]\<rparr>"
  | (depsFail) "\<not> visitedO st i" "\<not> onPathO st i"
      "orderDeps n c i (depsOf (registeredBeans c) i) (st\<lparr>onPathO := (onPathO st)(i := True)\<rparr>)
         = (r, st')" "r \<noteq> Success"
proof (cases "visitedO st i")
  case True
  with assms have "r = Success" "st' = st" by auto
  with True seen show ?thesis by blast
next
  case nv: False
  show ?thesis
  proof (cases "onPathO st i")
    case True
    with assms nv have "r = Failure (InitOrderCycle i)" "st' = st" by auto
    with nv True cycle show ?thesis by blast
  next
    case np: False
    define bn where "bn = (case registeredBeans c i of Some b \<Rightarrow> b | None \<Rightarrow> zeroBean)"
    define st1 where "st1 = st\<lparr>onPathO := (onPathO st)(i := True)\<rparr>"
    show ?thesis
    proof (cases "hasDependencies bn")
      case False
      then have d: "depsOf (registeredBeans c) i = []"
        by (auto simp: depsOf_def bn_def zeroBean_def split: option.splits)
      from assms nv np False have "r = Success"
        "st' = st\<lparr>onPathO := ((onPathO st)(i := True))(i := False),
                 visitedO := (visitedO st)(i := True), order := order st @ [i]\<rparr>"
        by (auto simp: bn_def Let_def)
      with nv np d leaf show ?thesis by blast
    next
      case True
      then have d: "depsOf (registeredBeans c) i = dependencies bn"
        by (auto simp: depsOf_def bn_def zeroBean_def split: option.splits)
      obtain r2 st2 where D: "orderDeps n c i (dependencies bn) st1 = (r2, st2)"
        by (cases "orderDeps n c i (dependencies bn) st1")
      show ?thesis
      proof (cases "r2 = Success")
        case s: True
        with assms nv np True D have "r = Success"
          "st' = st2\<lparr>onPathO := (onPathO st2)(i := False), visitedO := (visitedO st2)(i := True),
                  order := order st2 @ [i]\<rparr>"
          by (auto simp: bn_def[symmetric] st1_def[symmetric] Let_def)
        with nv np d D s depsOk show ?thesis unfolding st1_def by metis
      next
        case f: False
        with assms nv np True D have "r = r2" "st' = st2"
          by (auto simp: bn_def[symmetric] st1_def[symmetric] Let_def split: outcome.splits)
        with nv np d D f depsFail show ?thesis unfolding st1_def by metis
      qed
    qed
  qed
qed

lemma orderDeps_Cons_cases:
  assumes "orderDeps n c i (d # rest) st = (r, st')"
  obtains
    (unregistered) "registeredBeans c d = None" "r = Failure (InitOrderNotRegistered d i)" "st' = st"
  | (visitFail) "registeredBeans c d \<noteq> None" "orderVisit n c d st = (r, st')" "r \<noteq> Success"
  | (step) st1 where "registeredBeans c d \<noteq> None" "orderVisit n c d st = (Success, st1)"
      "orderDeps n c i rest st1 = (r, st')"
proof (cases "registeredBeans c d")
  case None
  with assms have "r = Failure (InitOrderNotRegistered d i)" "st' = st" by auto
  with None unregistered show ?thesis by blast
next
  case (Some b)
  obtain r1 st1 where V: "orderVisit n c d st = (r1, st1)" by (cases "orderVisit n c d st")
  show ?thesis
  proof (cases "r1 = Success")
    case True
    with assms Some V have "orderDeps n c i rest st1 = (r, st')" by simp
    with Some V True step show ?thesis by auto
  next
    case False
    with assms Some V have "r = r1" "st' = st1" by (auto split: outcome.splits)
    with Some V False visitFail show ?thesis by auto
  qed
qed

lemma dependencyOrder_snoc:
  assumes "dependencyOrder m ord" and "set (depsOf m i) \<subseteq> set ord"
  shows "dependencyOrder m (ord @ [i])"
  unfolding dependencyOrder_def
proof (intro allI impI ballI)
  fix j d assume j: "j < length (ord @ [i])" and d: "d \<in> set (depsOf m ((ord @ [i]) ! j))"
  show "d \<in> set (take j (ord @ [i]))"
  proof (cases "j < length ord")
    case True
    with d have "d \<in> set (depsOf m (ord ! j))" by (simp add: nth_append)
    with assms(1) True have "d \<in> set (take j ord)" by (auto simp: dependencyOrder_def)
    with True show ?thesis by simp
  next
    case False
    with j have "j = length ord" by simp
    with d assms(2) show ?thesis by auto
  qed
qed

lemma ordStep_refl: "ordStep st st"
  by (simp add: ordStep_def)

lemma ordStep_trans: "ordStep a b \<Longrightarrow> ordStep b c \<Longrightarrow> ordStep a c"
  unfolding ordStep_def by (intro conjI; (simp; fail | metis append.assoc))

lemma orderVisit_leave:
  assumes nv: "\<not> visitedO st i" and np: "\<not> onPathO st i"
    and S: "ordStep (st\<lparr>onPathO := (onPathO st)(i := True)\<rparr>) st2"
    and I: "ordInv c st \<Longrightarrow> ordInv c st2 \<and> set (depsOf (registeredBeans c) i) \<subseteq> set (order st2)"
    and st': "st' = st2\<lparr>onPathO := (onPathO st2)(i := False), visitedO := (visitedO st2)(i := True),
                  order := order st2 @ [i]\<rparr>"
  shows "ordStep st st' \<and> visitedO st' i \<and>
         (registeredBeans c i \<noteq> None \<and> ordInv c st \<longrightarrow> ordInv c st')"
proof -
  from S have op: "onPathO st2 = (onPathO st)(i := True)"
    and new: "\<exists>new. order st2 = order st @ new"
    and mono: "\<forall>k. visitedO st k \<longrightarrow> visitedO st2 k"
    and keep: "\<forall>k. ((onPathO st)(i := True)) k \<and> \<not> visitedO st k \<longrightarrow> \<not> visitedO st2 k"
    by (simp_all add: ordStep_def)
  from keep nv have nv2: "\<not> visitedO st2 i" by simp
  have "(onPathO st)(i := False) = onPathO st" using np by (intro ext) simp
  then have op': "onPathO st' = onPathO st" using op by (simp add: st')
  have 1: "ordStep st st'"
    unfolding ordStep_def
  proof (intro conjI allI impI)
    show "onPathO st' = onPathO st" by (rule op')
    from new show "\<exists>new. order st' = order st @ new" by (auto simp: st')
    fix k
    show "visitedO st' k" if "visitedO st k" using mono that by (simp add: st')
    show "\<not> visitedO st' k" if "onPathO st k \<and> \<not> visitedO st k"
    proof -
      from that np have "k \<noteq> i" by auto
      with keep that show ?thesis by (simp add: st')
    qed
  qed
  have 2: "visitedO st' i" by (simp add: st')
  have 3: "ordInv c st'" if R: "registeredBeans c i \<noteq> None" and inv: "ordInv c st"
  proof -
    from I[OF inv] have i2: "ordInv c st2" and ds: "set (depsOf (registeredBeans c) i) \<subseteq> set (order st2)"
      by simp_all
    from i2 nv2 have ni: "i \<notin> set (order st2)" by (simp add: ordInv_def)
    from i2 have "dependencyOrder (registeredBeans c) (order st2)" by (simp add: ordInv_def)
    from dependencyOrder_snoc[OF this ds] have "dependencyOrder (registeredBeans c) (order st2 @ [i])" .
    with i2 ni R show ?thesis by (auto simp: ordInv_def st')
  qed
  from 1 2 3 show ?thesis by blast
qed

lemma orderVisit_ok:
  "orderVisit n c i st = (Success, st') \<Longrightarrow>
     ordStep st st' \<and> visitedO st' i \<and>
     (registeredBeans c i \<noteq> None \<and> ordInv c st \<longrightarrow> ordInv c st')"
  and orderDeps_ok:
  "orderDeps n c i ds st = (Success, st') \<Longrightarrow>
     ordStep st st' \<and> (\<forall>d\<in>set ds. visitedO st' d) \<and> (ordInv c st \<longrightarrow> ordInv c st')"
proof -
  have deps: "ordStep st st' \<and> (\<forall>d\<in>set ds. visitedO st' d) \<and> (ordInv c st \<longrightarrow> ordInv c st')"
    if V: "\<And>i st st'. orderVisit n c i st = (Success, st') \<Longrightarrow>
              ordStep st st' \<and> visitedO st' i \<and>
              (registeredBeans c i \<noteq> None \<and> ordInv c st \<longrightarrow> ordInv c st')"
      and D: "orderDeps n c i ds st = (Success, st')"
    for n i ds st st'
    using D
  proof (induction ds arbitrary: st)
    case Nil
    then show ?case by (simp add: ordStep_refl)
  next
    case (Cons d rest)
    from Cons.prems show ?case
    proof (cases rule: orderDeps_Cons_cases)
      case unregistered
      then show ?thesis by simp
    next
      case visitFail
      then show ?thesis by simp
    next
      case (step st1)
      note A = V[OF step(2)] and B = Cons.IH[OF step(3)]
      from A B have "ordStep st st'" using ordStep_trans by blast
      moreover from A B have "visitedO st' d" by (auto simp: ordStep_def)
      moreover from A B step(1) have "ordInv c st \<longrightarrow> ordInv c st'" by blast
      ultimately show ?thesis using B by simp
    qed
  qed
  have vis: "\<And>i st st'. orderVisit n c i st = (Success, st') \<Longrightarrow>
              ordStep st st' \<and> visitedO st' i \<and>
              (registeredBeans c i \<noteq> None \<and> ordInv c st \<longrightarrow> ordInv c st')"
  proof (induction n)
    case 0
    then show ?case by simp
  next
    case (Suc n)
    from Suc.prems show ?case
    proof (cases rule: orderVisit_Suc_cases)
      case seen
      then show ?thesis by (simp add: ordStep_refl)
    next
      case cycle
      then show ?thesis by simp
    next
      case leaf
      show ?thesis
      proof (rule orderVisit_leave[OF leaf(1,2), where ?st2.0 = "st\<lparr>onPathO := (onPathO st)(i := True)\<rparr>"])
        show "ordStep (st\<lparr>onPathO := (onPathO st)(i := True)\<rparr>) (st\<lparr>onPathO := (onPathO st)(i := True)\<rparr>)"
          by (rule ordStep_refl)
        show "ordInv c (st\<lparr>onPathO := (onPathO st)(i := True)\<rparr>) \<and>
              set (depsOf (registeredBeans c) i) \<subseteq> set (order (st\<lparr>onPathO := (onPathO st)(i := True)\<rparr>))"
          if "ordInv c st" using that leaf(3) by (simp add: ordInv_def)
        show "st' = st\<lparr>onPathO := (onPathO st)(i := True)\<rparr>
                \<lparr>onPathO := (onPathO (st\<lparr>onPathO := (onPathO st)(i := True)\<rparr>))(i := False),
                  visitedO := (visitedO (st\<lparr>onPathO := (onPathO st)(i := True)\<rparr>))(i := True),
                  order := order (st\<lparr>onPathO := (onPathO st)(i := True)\<rparr>) @ [i]\<rparr>"
          using leaf(5) by simp
      qed
    next
      case (depsOk st2)
      note D = deps[OF Suc.IH depsOk(3)]
      show ?thesis
      proof (rule orderVisit_leave[OF depsOk(1,2) _ _ depsOk(5)])
        from D show "ordStep (st\<lparr>onPathO := (onPathO st)(i := True)\<rparr>) st2" by simp
        show "ordInv c st2 \<and> set (depsOf (registeredBeans c) i) \<subseteq> set (order st2)"
          if inv: "ordInv c st"
        proof -
          from inv have "ordInv c (st\<lparr>onPathO := (onPathO st)(i := True)\<rparr>)" by (simp add: ordInv_def)
          with D have i2: "ordInv c st2" by simp
          with D show ?thesis by (auto simp: ordInv_def)
        qed
      qed
    next
      case depsFail
      then show ?thesis by simp
    qed
  qed
  show "orderVisit n c i st = (Success, st') \<Longrightarrow>
     ordStep st st' \<and> visitedO st' i \<and>
     (registeredBeans c i \<noteq> None \<and> ordInv c st \<longrightarrow> ordInv c st')" by (rule vis)
  show "orderDeps n c i ds st = (Success, st') \<Longrightarrow>
     ordStep st st' \<and> (\<forall>d\<in>set ds. visitedO st' d) \<and> (ordInv c st \<longrightarrow> ordInv c st')"
    by (rule deps[OF vis])
qed

lemma orderLoop_ok:
  "orderLoop n c ks st = (Success, st') \<Longrightarrow>
     ordStep st st' \<and> (\<forall>k\<in>set ks. registeredBeans c k \<noteq> None \<longrightarrow> visitedO st' k) \<and>
     (ordInv c st \<longrightarrow> ordInv c st')"
proof (induction ks arbitrary: st)
  case Nil
  then show ?case by (simp add: ordStep_refl)
next
  case (Cons k ks)
  show ?case
  proof (cases "registeredBeans c k")
    case None
    with Cons show ?thesis by simp
  next
    case (Some b)
    obtain r1 st1 where V: "orderVisit n c k st = (r1, st1)" by (cases "orderVisit n c k st")
    with Cons.prems Some have r1: "r1 = Success" and L: "orderLoop n c ks st1 = (Success, st')"
      by (auto split: outcome.splits)
    note A = orderVisit_ok[OF V[unfolded r1]] and B = Cons.IH[OF L]
    from A B have "ordStep st st'" using ordStep_trans by blast
    moreover from A B have "visitedO st' k" by (auto simp: ordStep_def)
    moreover from A B Some have "ordInv c st \<longrightarrow> ordInv c st'" by simp
    ultimately show ?thesis using B by simp
  qed
qed

section \<open>The outcomes of the stages of Build\<close>

lemma visit_outcome:
  assumes ok: "P Success" and fuel: "P FuelExhausted" and panic: "P Panicked"
    and e1: "\<And>i. P (Failure (ReceiverNotFound i))"
    and e2: "\<And>p. P (Failure (CycleDetected p))"
    and e3: "\<And>i. P (Failure (ReceiverNil i))"
    and e4: "\<And>d bn st err st1. lookupDependency e d bn st = (Inl err, st1) \<Longrightarrow> P (Failure err)"
    and e5: "\<And>d i. P (Failure (DependencyNotInstantiated d i))"
    and e6: "\<And>err. P (Failure (InjectWrap err))"
  shows "visit n e i st = (r, st') \<Longrightarrow> P r"
    and "visitDeps n e i bn ds st = (r, st') \<Longrightarrow> P r"
proof -
  have deps: "P r"
    if V: "\<And>i st r st'. visit n e i st = (r, st') \<Longrightarrow> P r"
      and D: "visitDeps n e i bn ds st = (r, st')"
    for n i bn ds st r st'
    using D
  proof (induction ds arbitrary: bn st)
    case Nil
    then show ?case using ok by simp
  next
    case (Cons d rest)
    from Cons.prems show ?case
    proof (cases rule: visitDeps_Cons_cases)
      case (lookFail err)
      show ?thesis unfolding lookFail(2) by (rule e4[OF lookFail(1)])
    next
      case (visitFail depBean st1)
      show ?thesis by (rule V[OF visitFail(2)])
    next
      case (notInst depBean st1)
      show ?thesis unfolding notInst(4) by (rule e5)
    next
      case (injFail depBean st1 st2 err h)
      show ?thesis unfolding injFail(5) by (rule e6)
    next
      case (injPanic depBean st1 st2 h)
      from injPanic(5) show ?thesis using panic fuel by auto
    next
      case (step depBean st1 st2 h)
      show ?thesis by (rule Cons.IH[OF step(5)])
    qed
  qed
  have vis: "\<And>i st r st'. visit n e i st = (r, st') \<Longrightarrow> P r"
  proof (induction n)
    case 0
    then show ?case using fuel by simp
  next
    case (Suc n)
    from Suc.prems show ?case
    proof (cases rule: visit_Suc_cases)
      case notfound
      show ?thesis unfolding notfound(2) by (rule e1)
    next
      case (cycle bn)
      show ?thesis unfolding cycle(3) by (rule e2)
    next
      case (seen bn)
      show ?thesis unfolding seen(4) by (rule ok)
    next
      case (leaf bn)
      show ?thesis unfolding leaf(5) by (rule ok)
    next
      case (nilrecv bn)
      show ?thesis unfolding nilrecv(6) by (rule e3)
    next
      case (depsOk bn st2)
      show ?thesis unfolding depsOk(7) by (rule ok)
    next
      case (depsFail bn)
      show ?thesis by (rule deps[OF Suc.IH depsFail(6)])
    qed
  qed
  show "visit n e i st = (r, st') \<Longrightarrow> P r" by (rule vis)
  show "visitDeps n e i bn ds st = (r, st') \<Longrightarrow> P r" by (rule deps[OF vis])
qed

lemma injectLoop_outcome:
  assumes ok: "P Success" and V: "\<forall>i st r st'. visit n e i st = (r, st') \<longrightarrow> P r"
  shows "injectLoop n e ks st = (r, st') \<Longrightarrow> P r"
proof (induction ks arbitrary: st)
  case Nil
  then show ?case using ok by simp
next
  case (Cons k ks)
  show ?case
  proof (cases "registeredBeans (ctr st) k")
    case None
    with Cons show ?thesis by simp
  next
    case (Some b)
    obtain r1 st1 where W: "visit n e k st = (r1, st1)" by (cases "visit n e k st")
    show ?thesis
    proof (cases "r1 = Success")
      case True
      with Cons.prems Some W have "injectLoop n e ks st1 = (r, st')" by simp
      from Cons.IH[OF this] show ?thesis .
    next
      case False
      with Cons.prems Some W have "r = r1" by (simp split: outcome.splits)
      with V W show ?thesis by blast
    qed
  qed
qed

text \<open>The top-level error of a failed lookup.\<close>

lemma lookup_error_kinds:
  assumes "lookupDependency e d bn st = (Inl err, st1)"
  shows "(\<exists>x. err = LiteralProviderError d x) \<or> err = DependencyNotFound d (id_bean bn)"
  using assms by (cases rule: lookupDependency_cases) auto

lemma injectDependencies_outcome:
  assumes "injectDependencies n e ks c w = (r, st)"
  shows "injectionError r"
proof -
  have V0: "\<And>i st r st'. visit n e i st = (r, st') \<Longrightarrow> injectionError r"
    by (rule visit_outcome(1)[where P = injectionError and e = e])
       (auto simp: injectionError_def dest: lookup_error_kinds)
  then have V: "\<forall>i st r st'. visit n e i st = (r, st') \<longrightarrow> injectionError r" by blast
  have ok: "injectionError Success" by (simp add: injectionError_def)
  from assms have "injectLoop n e ks
       \<lparr>ctr = c, wld = w, visited = (\<lambda>k. False), onPath = (\<lambda>k. False), path = []\<rparr> = (r, st)"
    by (simp add: injectDependencies_def)
  then show ?thesis by (rule injectLoop_outcome[of injectionError n e, OF ok V])
qed

lemma checkRequired_outcome:
  "checkRequired e c k t = Success \<or> checkRequired e c k t = Panicked \<or>
   checkRequired e c k t = Failure (RequiredNotRegistered k) \<or>
   (\<exists>rt. checkRequired e c k t = Failure (TypeMismatch k t rt))"
  by (auto simp: checkRequired_def split: option.splits kind.splits)

lemma validateLoop_outcome:
  "validateLoop e c ks = Success \<or> validateLoop e c ks = Panicked \<or>
   (\<exists>k. validateLoop e c ks = Failure (RequiredNotRegistered k)) \<or>
   (\<exists>k t rt. validateLoop e c ks = Failure (TypeMismatch k t rt))"
proof (cases "validateLoop e c ks = Success")
  case True
  then show ?thesis by simp
next
  case False
  from validateLoop_first[OF False] obtain k t where
    "checkRequired e c k t = validateLoop e c ks" by blast
  with checkRequired_outcome[of e c k t] show ?thesis by metis
qed

lemma instantiateLoop_outcome:
  "instantiateLoop ks c h = (r, c', h') \<Longrightarrow> r = Success \<or> r = Panicked"
proof (induction ks arbitrary: c h)
  case Nil
  then show ?case by simp
next
  case (Cons k ks)
  show ?case
  proof (cases "registeredBeans c k")
    case None
    with Cons show ?thesis by simp
  next
    case (Some bn)
    show ?thesis
    proof (cases "instance_bean bn \<noteq> VNil")
      case True
      with Cons Some show ?thesis by simp
    next
      case False
      then have nil: "instance_bean bn = VNil" by simp
      show ?thesis
      proof (cases "\<exists>n. beanType bn = Some (TPtr (TStruct n))")
        case False
        with Cons.prems Some nil have "(\<exists>t. beanType bn = Some t \<and> instantiateLoop ks c h = (r, c', h')) \<or> r = Panicked"
          by (auto split: option.splits rtype.splits)
        with Cons.IH[of c h] show ?thesis by auto
      next
        case True
        then obtain n where T: "beanType bn = Some (TPtr (TStruct n))" by blast
        from Cons.prems Some nil T
        have "\<exists>c1 h1. instantiateLoop ks c1 h1 = (r, c', h')"
          by (auto simp: createInstance_def reflectNew_def)
        with Cons.IH show ?thesis by blast
      qed
    qed
  qed
qed

lemma orderVisit_outcome:
  "orderVisit n c i st = (r, st') \<Longrightarrow>
     r = Success \<or> r = FuelExhausted \<or> (\<exists>k. r = Failure (InitOrderCycle k)) \<or>
     (\<exists>d k. r = Failure (InitOrderNotRegistered d k))"
  and orderDeps_outcome:
  "orderDeps n c i ds st = (r, st') \<Longrightarrow>
     r = Success \<or> r = FuelExhausted \<or> (\<exists>k. r = Failure (InitOrderCycle k)) \<or>
     (\<exists>d k. r = Failure (InitOrderNotRegistered d k))"
proof -
  let ?P = "\<lambda>r. r = Success \<or> r = FuelExhausted \<or> (\<exists>k. r = Failure (InitOrderCycle k)) \<or>
     (\<exists>d k. r = Failure (InitOrderNotRegistered d k))"
  have deps: "?P r"
    if V: "\<And>i st r st'. orderVisit n c i st = (r, st') \<Longrightarrow> ?P r"
      and D: "orderDeps n c i ds st = (r, st')"
    for n i ds st r st'
    using D
  proof (induction ds arbitrary: st)
    case Nil
    then show ?case by simp
  next
    case (Cons d rest)
    from Cons.prems show ?case
    proof (cases rule: orderDeps_Cons_cases)
      case unregistered
      then show ?thesis by simp
    next
      case visitFail
      from V[OF visitFail(2)] show ?thesis .
    next
      case (step st1)
      from Cons.IH[OF step(3)] show ?thesis .
    qed
  qed
  have vis: "\<And>i st r st'. orderVisit n c i st = (r, st') \<Longrightarrow> ?P r"
  proof (induction n)
    case 0
    then show ?case by simp
  next
    case (Suc n)
    from Suc.prems show ?case
    proof (cases rule: orderVisit_Suc_cases)
      case depsFail
      from deps[OF Suc.IH depsFail(3)] show ?thesis .
    qed simp_all
  qed
  show "orderVisit n c i st = (r, st') \<Longrightarrow> ?P r" by (rule vis)
  show "orderDeps n c i ds st = (r, st') \<Longrightarrow> ?P r" by (rule deps[OF vis])
qed

lemma orderLoop_outcome:
  "orderLoop n c ks st = (r, st') \<Longrightarrow>
     r = Success \<or> r = FuelExhausted \<or> (\<exists>k. r = Failure (InitOrderCycle k)) \<or>
     (\<exists>d k. r = Failure (InitOrderNotRegistered d k))"
proof (induction ks arbitrary: st)
  case Nil
  then show ?case by simp
next
  case (Cons k ks)
  show ?case
  proof (cases "registeredBeans c k")
    case None
    with Cons show ?thesis by simp
  next
    case (Some b)
    obtain r1 st1 where V: "orderVisit n c k st = (r1, st1)" by (cases "orderVisit n c k st")
    show ?thesis
    proof (cases "r1 = Success")
      case True
      with Cons.prems Some V have "orderLoop n c ks st1 = (r, st')" by simp
      from Cons.IH[OF this] show ?thesis .
    next
      case False
      with Cons.prems Some V have "r = r1" by (simp split: outcome.splits)
      with orderVisit_outcome[OF V] show ?thesis by simp
    qed
  qed
qed

lemma runInitializers_append:
  "runInitializers e c pre w = (Success, w1) \<Longrightarrow>
     runInitializers e c (pre @ ks) w = runInitializers e c ks w1"
proof (induction pre arbitrary: w)
  case Nil
  then show ?case by simp
next
  case (Cons k pre)
  define bn where "bn = (case registeredBeans c k of Some b \<Rightarrow> b | None \<Rightarrow> zeroBean)"
  show ?case
  proof (cases "instance_bean bn = VNil \<or> asInitializer e (instance_bean bn) = None")
    case True
    with Cons.prems have "runInitializers e c pre w = (Success, w1)"
      by (auto simp: bn_def Let_def split: option.splits)
    from Cons.IH[OF this] True show ?thesis
      by (auto simp: bn_def Let_def split: option.splits)
  next
    case False
    then obtain initr where i: "instance_bean bn \<noteq> VNil" "asInitializer e (instance_bean bn) = Some initr"
      by auto
    obtain h eo where R: "initr (mem w) = (h, eo)" by (cases "initr (mem w)")
    show ?thesis
    proof (cases eo)
      case None
      with Cons.prems i R have "runInitializers e c pre (w\<lparr>mem := h, initCalls := initCalls w @ [k]\<rparr>) = (Success, w1)"
        by (simp add: bn_def Let_def)
      from Cons.IH[OF this] i R None show ?thesis by (simp add: bn_def Let_def)
    next
      case (Some ierr)
      with Cons.prems i R show ?thesis by (simp add: bn_def Let_def)
    qed
  qed
qed

lemma runInitializers_abort:
  assumes "runInitializers e c pre w = (Success, w1)" and "registeredBeans c i = Some b"
    and "instance_bean b \<noteq> VNil" and "asInitializer e (instance_bean b) = Some initr"
    and "initr (mem w1) = (h, Some err)"
  shows "runInitializers e c (pre @ i # post) w =
           (Failure (InitializerFailed i err), w1\<lparr>mem := h, initCalls := initCalls w1 @ [i]\<rparr>)"
  unfolding runInitializers_append[OF assms(1)] using assms(2-5) by simp

lemma runInitializers_calls:
  "runInitializers e c ks w = (r, w') \<Longrightarrow>
     (r = Success \<and> initCalls w' = initCalls w @ filter (hooked e (registeredBeans c)) ks) \<or>
     (\<exists>pre i post err. ks = pre @ i # post \<and> r = Failure (InitializerFailed i err) \<and>
        hooked e (registeredBeans c) i \<and>
        initCalls w' = initCalls w @ filter (hooked e (registeredBeans c)) pre @ [i])"
proof (induction ks arbitrary: w)
  case Nil
  then show ?case by simp
next
  case (Cons k ks)
  define bn where "bn = (case registeredBeans c k of Some b \<Rightarrow> b | None \<Rightarrow> zeroBean)"
  show ?case
  proof (cases "instance_bean bn = VNil \<or> asInitializer e (instance_bean bn) = None")
    case True
    then have nh: "\<not> hooked e (registeredBeans c) k"
      by (auto simp: hooked_def bn_def zeroBean_def split: option.splits)
    from True Cons.prems have "runInitializers e c ks w = (r, w')"
      by (auto simp: bn_def Let_def split: option.splits)
    from Cons.IH[OF this] show ?thesis
    proof
      assume "r = Success \<and> initCalls w' = initCalls w @ filter (hooked e (registeredBeans c)) ks"
      with nh show ?thesis by simp
    next
      assume "\<exists>pre i post err. ks = pre @ i # post \<and> r = Failure (InitializerFailed i err) \<and>
        hooked e (registeredBeans c) i \<and>
        initCalls w' = initCalls w @ filter (hooked e (registeredBeans c)) pre @ [i]"
      then obtain pre i post err where p: "ks = pre @ i # post" "r = Failure (InitializerFailed i err)"
        "hooked e (registeredBeans c) i"
        "initCalls w' = initCalls w @ filter (hooked e (registeredBeans c)) pre @ [i]" by blast
      with nh have "k # ks = (k # pre) @ i # post \<and> r = Failure (InitializerFailed i err) \<and>
        hooked e (registeredBeans c) i \<and>
        initCalls w' = initCalls w @ filter (hooked e (registeredBeans c)) (k # pre) @ [i]" by simp
      then show ?thesis by blast
    qed
  next
    case False
    then obtain initr where i: "instance_bean bn \<noteq> VNil" "asInitializer e (instance_bean bn) = Some initr"
      by auto
    then have hk: "hooked e (registeredBeans c) k"
      by (auto simp: hooked_def bn_def zeroBean_def split: option.splits)
    obtain h eo where R: "initr (mem w) = (h, eo)" by (cases "initr (mem w)")
    show ?thesis
    proof (cases eo)
      case None
      with Cons.prems i R have "runInitializers e c ks (w\<lparr>mem := h, initCalls := initCalls w @ [k]\<rparr>) = (r, w')"
        by (simp add: bn_def Let_def)
      from Cons.IH[OF this] show ?thesis
      proof
        assume "r = Success \<and> initCalls w' = initCalls (w\<lparr>mem := h, initCalls := initCalls w @ [k]\<rparr>)
                  @ filter (hooked e (registeredBeans c)) ks"
        with hk show ?thesis by simp
      next
        assume "\<exists>pre i post err. ks = pre @ i # post \<and> r = Failure (InitializerFailed i err) \<and>
          hooked e (registeredBeans c) i \<and>
          initCalls w' = initCalls (w\<lparr>mem := h, initCalls := initCalls w @ [k]\<rparr>)
                  @ filter (hooked e (registeredBeans c)) pre @ [i]"
        then obtain pre i post err where p: "ks = pre @ i # post" "r = Failure (InitializerFailed i err)"
          "hooked e (registeredBeans c) i"
          "initCalls w' = initCalls (w\<lparr>mem := h, initCalls := initCalls w @ [k]\<rparr>)
                  @ filter (hooked e (registeredBeans c)) pre @ [i]" by blast
        with hk have "k # ks = (k # pre) @ i # post \<and> r = Failure (InitializerFailed i err) \<and>
          hooked e (registeredBeans c) i \<and>
          initCalls w' = initCalls w @ filter (hooked e (registeredBeans c)) (k # pre) @ [i]" by simp
        then show ?thesis by blast
      qed
    next
      case (Some ierr)
      with Cons.prems i R have "r = Failure (InitializerFailed k ierr)"
        "w' = w\<lparr>mem := h, initCalls := initCalls w @ [k]\<rparr>"
        by (simp_all add: bn_def Let_def)
      with hk have "k # ks = [] @ k # ks \<and> r = Failure (InitializerFailed k ierr) \<and>
          hooked e (registeredBeans c) k \<and>
          initCalls w' = initCalls w @ filter (hooked e (registeredBeans c)) [] @ [k]" by simp
      then show ?thesis by blast
    qed
  qed
qed

section \<open>Identifiers in lower case\<close>




section \<open>The literal provider\<close>




section \<open>Validation of the required dependencies\<close>

text \<open>
  C5. Before anything is instantiated, \<open>Build\<close> checks every entry of the required
  dependencies. With a bean registered under the identifier, the check passes exactly when
  the types are compatible in the sense of \<open>compatibleSpec\<close> (a pointer to exactly the
  expected struct, an implementation of the expected interface, the same type otherwise)
  and gives the type-mismatch error otherwise. With no bean registered, the check passes
  only for an expected type of kind String while a literal provider is installed, and
  gives the required-but-not-registered error, which names the identifier, otherwise. An
  entry whose check does not pass makes \<open>Build\<close> return without success, with the registry,
  the required dependencies and the world untouched; what \<open>Build\<close> returns is the result
  of the first such entry in the order of the iteration, so that of the entry itself when
  no other entry fails.
\<close>

theorem validation_of_required_dependencies:
  assumes "\<not> built c" and "requiredDependency c beanID = Some expectedType"
    and "beanID \<in> set (reqOrder s)"
  shows "(registeredBeans c beanID = Some regBean \<and> beanType regBean = Some registeredType \<longrightarrow>
            checkRequired e c beanID expectedType =
              (if compatibleSpec e expectedType registeredType then Success
               else Failure (TypeMismatch beanID expectedType (Some registeredType)))) \<and>
         (registeredBeans c beanID = None \<longrightarrow>
            checkRequired e c beanID expectedType =
              (if kindOf expectedType = String \<and> literalProvider e \<noteq> None then Success
               else Failure (RequiredNotRegistered beanID))) \<and>
         (checkRequired e c beanID expectedType \<noteq> Success \<longrightarrow>
            (\<exists>r c'. Build e s c w = (r, c', w) \<and> r \<noteq> Success \<and>
                    registeredBeans c' = registeredBeans c \<and>
                    requiredDependency c' = requiredDependency c \<and>
                    (\<exists>k\<in>set (reqOrder s). \<exists>t. requiredDependency c k = Some t \<and>
                        checkRequired e c k t = r))) \<and>
         ((\<forall>k t. k \<noteq> beanID \<and> requiredDependency c k = Some t \<longrightarrow>
               checkRequired e c k t = Success) \<and>
          checkRequired e c beanID expectedType \<noteq> Success \<longrightarrow>
            fst (Build e s c w) = checkRequired e c beanID expectedType) \<and>
         errorText (RequiredNotRegistered beanID) =
           ''bean `'' @ beanID @ ''` is required but not registered''"
proof (intro conjI impI)
  assume "registeredBeans c beanID = Some regBean \<and> beanType regBean = Some registeredType"
  then show "checkRequired e c beanID expectedType =
              (if compatibleSpec e expectedType registeredType then Success
               else Failure (TypeMismatch beanID expectedType (Some registeredType)))"
    by (cases expectedType; cases registeredType)
       (auto simp: checkRequired_def compatibleSpec_def)
next
  assume "registeredBeans c beanID = None"
  then show "checkRequired e c beanID expectedType =
              (if kindOf expectedType = String \<and> literalProvider e \<noteq> None then Success
               else Failure (RequiredNotRegistered beanID))"
    by (simp add: checkRequired_def)
next
  assume F: "checkRequired e c beanID expectedType \<noteq> Success"
  with assms(2,3) have V: "validateLoop e c (reqOrder s) \<noteq> Success"
    by (auto simp: validateLoop_Success)
  from Build_validation_fails[OF assms(1) V] validateLoop_first[OF V] V
  show "\<exists>r c'. Build e s c w = (r, c', w) \<and> r \<noteq> Success \<and>
                    registeredBeans c' = registeredBeans c \<and>
                    requiredDependency c' = requiredDependency c \<and>
                    (\<exists>k\<in>set (reqOrder s). \<exists>t. requiredDependency c k = Some t \<and>
                        checkRequired e c k t = r)"
    by auto
next
  assume A: "(\<forall>k t. k \<noteq> beanID \<and> requiredDependency c k = Some t \<longrightarrow>
               checkRequired e c k t = Success) \<and>
          checkRequired e c beanID expectedType \<noteq> Success"
  with assms(2,3) have V: "validateLoop e c (reqOrder s) \<noteq> Success"
    by (auto simp: validateLoop_Success)
  from validateLoop_first[OF V] obtain k t where k: "requiredDependency c k = Some t"
    "checkRequired e c k t = validateLoop e c (reqOrder s)" by blast
  with A V have "k = beanID" by metis
  with k assms(2) have "validateLoop e c (reqOrder s) = checkRequired e c beanID expectedType"
    by simp
  with Build_validation_fails[OF assms(1) V] show "fst (Build e s c w) = checkRequired e c beanID expectedType"
    by simp
qed simp

theorem validation_of_required_dependencies_witness:
  "\<not> built configOnly \<and> requiredDependency configOnly ''workingdir'' = Some TString \<and>
   ''workingdir'' \<in> set (reqOrder (sameOrder [''workingdir''])) \<and>
   registeredBeans configOnly ''workingdir'' = None \<and>
   fst (Build testEnv (sameOrder [''workingdir'']) configOnly emptyWorld)
     = Failure (RequiredNotRegistered ''workingdir'') \<and>
   \<not> built configMismatch \<and> requiredDependency configMismatch ''workingdir'' = Some TString \<and>
   map_option beanType (registeredBeans configMismatch ''workingdir'')
     = Some (Some (TPtr (TStruct ''Logger''))) \<and>
   fst (Build testEnv (sameOrder [''workingdir'']) configMismatch emptyWorld)
     = Failure (TypeMismatch ''workingdir'' TString (Some (TPtr (TStruct ''Logger''))))"
proof -
  have nb: "\<not> built configOnly" by code_simp
  have rq: "requiredDependency configOnly ''workingdir'' = Some TString" by (simp add: configOnly_req)
  have mem: "''workingdir'' \<in> set (reqOrder (sameOrder [''workingdir'']))" by (simp add: sameOrder_def)
  have none: "registeredBeans configOnly ''workingdir'' = None" by code_simp
  have lp: "literalProvider testEnv = None" by (simp add: testEnv_def)
  have others: "\<forall>k t. k \<noteq> ''workingdir'' \<and> requiredDependency configOnly k = Some t \<longrightarrow>
                  checkRequired testEnv configOnly k t = Success"
    by (simp add: configOnly_req)
  note T = validation_of_required_dependencies[OF nb rq mem, where e = testEnv and w = emptyWorld]
  from T[THEN conjunct2, THEN conjunct1] none lp
  have c1: "checkRequired testEnv configOnly ''workingdir'' TString
              = Failure (RequiredNotRegistered ''workingdir'')" by simp
  from T[THEN conjunct2, THEN conjunct2, THEN conjunct2, THEN conjunct1] others c1
  have b1: "fst (Build testEnv (sameOrder [''workingdir'']) configOnly emptyWorld)
     = Failure (RequiredNotRegistered ''workingdir'')" by simp
  have nb2: "\<not> built configMismatch" by code_simp
  have rq2: "requiredDependency configMismatch ''workingdir'' = Some TString"
    by (simp add: configMismatch_req)
  have reg2: "map_option beanType (registeredBeans configMismatch ''workingdir'')
     = Some (Some (TPtr (TStruct ''Logger'')))" by code_simp
  then obtain regBean where rb: "registeredBeans configMismatch ''workingdir'' = Some regBean"
    "beanType regBean = Some (TPtr (TStruct ''Logger''))" by auto
  have others2: "\<forall>k t. k \<noteq> ''workingdir'' \<and> requiredDependency configMismatch k = Some t \<longrightarrow>
                  checkRequired testEnv configMismatch k t = Success"
    by (simp add: configMismatch_req)
  note T2 = validation_of_required_dependencies[OF nb2 rq2 mem, where e = testEnv and w = emptyWorld
      and regBean = regBean and registeredType = "TPtr (TStruct ''Logger'')"]
  from T2[THEN conjunct1] rb
  have c2: "checkRequired testEnv configMismatch ''workingdir'' TString
              = Failure (TypeMismatch ''workingdir'' TString (Some (TPtr (TStruct ''Logger''))))"
    by (simp add: compatibleSpec_def)
  from T2[THEN conjunct2, THEN conjunct2, THEN conjunct2, THEN conjunct1] others2 c2
  have b2: "fst (Build testEnv (sameOrder [''workingdir'']) configMismatch emptyWorld)
     = Failure (TypeMismatch ''workingdir'' TString (Some (TPtr (TStruct ''Logger''))))" by simp
  from nb rq mem none b1 nb2 rq2 reg2 b2 show ?thesis by simp
qed

section \<open>Field injection\<close>



section \<open>Registration after Build\<close>

text \<open>
  C8 (amended). After a \<open>Build\<close> that returned nil the flag is set; \<open>Register\<close> with a
  non-empty identifier and a type, and \<open>RegisterInstance\<close> with a non-empty identifier and
  a non-nil instance, then return the error \<open>ErrRegistrationClosed\<close>; every call of the two,
  whatever its arguments, returns an error and leaves the container as it is, the registry
  and the required dependencies included. After a \<open>Build\<close> that returned an error the flag
  is not set, and a registration with valid arguments succeeds.
\<close>

theorem registration_closed_after_build:
  "(Build e s c w = (Success, c', w') \<longrightarrow>
      built c' \<and>
      (beanID \<noteq> emptyString \<longrightarrow>
         Register e beanID (Some bt) c' = (Failure ErrRegistrationClosed, c')) \<and>
      (beanID \<noteq> emptyString \<and> inst \<noteq> VNil \<longrightarrow>
         RegisterInstance e beanID inst c' h = (Failure ErrRegistrationClosed, c', h)) \<and>
      (\<exists>err. Register e beanID bto c' = (Failure err, c')) \<and>
      (\<exists>err. RegisterInstance e beanID inst c' h = (Failure err, c', h))) \<and>
   (Build e s c w = (Failure err, c', w') \<longrightarrow>
      \<not> built c' \<and>
      (beanID \<noteq> emptyString \<and> (kindOf bt = Ptr \<or> kindOf bt = Struct) \<longrightarrow>
         fst (Register e beanID (Some bt) c') = Success) \<and>
      (beanID \<noteq> emptyString \<and> inst \<noteq> VNil \<longrightarrow>
         fst (RegisterInstance e beanID inst c' h) = Success))"
proof (intro conjI impI)
  assume B: "Build e s c w = (Success, c', w')"
  show b: "built c'"
  proof (cases "built c")
    case True
    with B show ?thesis by (simp add: Build_def)
  next
    case False
    with B show ?thesis by (auto simp: Build_def split: prod.splits if_splits)
  qed
  show "Register e beanID (Some bt) c' = (Failure ErrRegistrationClosed, c')"
    if "beanID \<noteq> emptyString" using that b by (simp add: Register_def)
  show "RegisterInstance e beanID inst c' h = (Failure ErrRegistrationClosed, c', h)"
    if "beanID \<noteq> emptyString \<and> inst \<noteq> VNil"
    using that b by (cases inst) (simp_all add: RegisterInstance_def)
  show "\<exists>err. Register e beanID bto c' = (Failure err, c')"
    using b by (cases bto) (simp_all add: Register_def)
  show "\<exists>err. RegisterInstance e beanID inst c' h = (Failure err, c', h)"
    using b by (cases inst) (simp_all add: RegisterInstance_def)
next
  assume B: "Build e s c w = (Failure err, c', w')"
  then have nb: "\<not> built c" by (auto simp: Build_def)
  obtain r1 c1 w1 where S: "buildSteps e s c w = (r1, c1, w1)" by (cases "buildSteps e s c w")
  with B nb have "r1 = Failure err" "c' = c1" by (auto simp: Build_def split: if_splits)
  with buildSteps_built[OF S] nb show isOpen: "\<not> built c'" by simp
  show "fst (Register e beanID (Some bt) c') = Success"
    if "beanID \<noteq> emptyString \<and> (kindOf bt = Ptr \<or> kindOf bt = Struct)"
  proof -
    define bt' where "bt' = (if kindOf bt = Struct then TPtr bt else bt)"
    with that have "kindOf bt' \<noteq> Struct" by auto
    from checkForDependency_not_Struct[OF this] obtain has deps c2
      where "checkForDependency e bt' c' = Some (has, deps, c2)" by blast
    with that isOpen show ?thesis
      by (auto simp: Register_def Let_def bt'_def)
  qed
  show "fst (RegisterInstance e beanID inst c' h) = Success"
    if "beanID \<noteq> emptyString \<and> inst \<noteq> VNil"
  proof -
    from that obtain t where t: "typeOf inst = Some t" by (cases inst) auto
    define bt' where "bt' = (if kindOf t = Struct then TPtr t else t)"
    then have "kindOf bt' \<noteq> Struct" by auto
    from checkForDependency_not_Struct[OF this] obtain has deps c2
      where "checkForDependency e bt' c' = Some (has, deps, c2)" by blast
    with that isOpen t show ?thesis
      by (auto simp: RegisterInstance_def Let_def bt'_def)
  qed
qed

theorem registration_closed_after_build_witness:
  "Build testEnv (sameOrder []) New emptyWorld = (Success, builtEmpty, emptyWorld) \<and>
   built builtEmpty \<and>
   Register testEnv ''WorkingDir'' (Some (TStruct ''Config'')) builtEmpty
     = (Failure ErrRegistrationClosed, builtEmpty) \<and>
   RegisterInstance testEnv ''WorkingDir'' (VString ''/tmp'') builtEmpty []
     = (Failure ErrRegistrationClosed, builtEmpty, []) \<and>
   Build testEnv (sameOrder [''workingdir'']) configOnly emptyWorld
     = (Failure (RequiredNotRegistered ''workingdir''), configOnly, emptyWorld) \<and>
   \<not> built configOnly \<and>
   fst (Register testEnv ''WorkingDir'' (Some (TStruct ''Config'')) configOnly) = Success \<and>
   fst (RegisterInstance testEnv ''WorkingDir'' (VString ''/tmp'') configOnly []) = Success"
proof -
  have r1: "fst (Build testEnv (sameOrder []) New emptyWorld) = Success" by code_simp
  have w1: "snd (snd (Build testEnv (sameOrder []) New emptyWorld)) = emptyWorld"
    by (simp add: Build_def buildSteps_def sameOrder_def New_def injectDependencies_def
        ordInit_def emptyWorld_def)
  have b1: "Build testEnv (sameOrder []) New emptyWorld = (Success, builtEmpty, emptyWorld)"
    using r1 w1 unfolding builtEmpty_def by (metis prod.collapse)
  have nb: "\<not> built configOnly" by code_simp
  have v: "validateLoop testEnv configOnly [''workingdir''] = Failure (RequiredNotRegistered ''workingdir'')"
    by code_simp
  have b2: "Build testEnv (sameOrder [''workingdir'']) configOnly emptyWorld
     = (Failure (RequiredNotRegistered ''workingdir''), configOnly, emptyWorld)"
    using nb v by (simp add: Build_def buildSteps_def sameOrder_def)
  have e1: "''WorkingDir'' \<noteq> emptyString" by (simp add: emptyString_def)
  have k: "kindOf (TStruct ''Config'') = Ptr \<or> kindOf (TStruct ''Config'') = Struct" by simp
  note S = registration_closed_after_build[where e = testEnv and s = "sameOrder []" and c = New
      and w = emptyWorld and c' = builtEmpty and w' = emptyWorld and beanID = "''WorkingDir''"
      and bt = "TStruct ''Config''" and inst = "VString ''/tmp''" and h = "[]", THEN conjunct1, rule_format, OF b1]
  note F = registration_closed_after_build[where e = testEnv and s = "sameOrder [''workingdir'']"
      and c = configOnly and w = emptyWorld and c' = configOnly and w' = emptyWorld
      and err = "RequiredNotRegistered ''workingdir''" and beanID = "''WorkingDir''"
      and bt = "TStruct ''Config''" and inst = "VString ''/tmp''" and h = "[]", THEN conjunct2, rule_format, OF b2]
  from S F b1 b2 e1 k show ?thesis by simp
qed

theorem closed_error_counterexample:
  "fst (Build testEnv (sameOrder []) New emptyWorld) = Success \<and>
   fst (Register testEnv [] (Some (TStruct ''Config''))
          (fst (snd (Build testEnv (sameOrder []) New emptyWorld))))
     = Failure ErrBeanIdParamIsEmpty \<and>
   fst (Register testEnv [] (Some (TStruct ''Config''))
          (fst (snd (Build testEnv (sameOrder []) New emptyWorld))))
     \<noteq> Failure ErrRegistrationClosed"
  by code_simp

section \<open>Registering an identifier twice\<close>

text \<open>
  C9. While the container is open, \<open>Register\<close> or \<open>RegisterInstance\<close> with an identifier
  that is already registered (after lower-casing) returns nil and stores the new descriptor
  in place of the earlier one: its type, instance, singleton flag and dependencies are
  those of the later call, computed from the new type alone; no other entry of the
  registry changes.
\<close>

theorem reregistration_replaces:
  assumes "\<not> built c" and "beanID \<noteq> emptyString"
    and "registeredBeans c (toLower beanID) = Some old"
  shows "(kindOf bt = Ptr \<or> kindOf bt = Struct \<longrightarrow>
           (\<exists>c' hasDeps deps c1.
              Register e beanID (Some bt) c = (Success, c') \<and>
              checkForDependency e (if kindOf bt = Struct then TPtr bt else bt) c
                = Some (hasDeps, deps, c1) \<and>
              registeredBeans c' = (registeredBeans c)(toLower beanID \<mapsto>
                \<lparr>id_bean = toLower beanID,
                 beanType = Some (if kindOf bt = Struct then TPtr bt else bt),
                 instance_bean = VNil, singleton = False,
                 hasDependencies = hasDeps, dependencies = deps\<rparr>))) \<and>
         (typeOf inst = Some t \<longrightarrow>
           (\<exists>c' h' hasDeps deps c1.
              RegisterInstance e beanID inst c h = (Success, c', h') \<and>
              checkForDependency e (if kindOf t = Struct then TPtr t else t) c
                = Some (hasDeps, deps, c1) \<and>
              registeredBeans c' = (registeredBeans c)(toLower beanID \<mapsto>
                \<lparr>id_bean = toLower beanID,
                 beanType = Some (if kindOf t = Struct then TPtr t else t),
                 instance_bean = (if kindOf t = Struct then VPtr t (Some (length h)) else inst),
                 singleton = True,
                 hasDependencies = hasDeps, dependencies = deps\<rparr>)))"
proof (intro conjI impI)
  assume k: "kindOf bt = Ptr \<or> kindOf bt = Struct"
  define bt' where "bt' = (if kindOf bt = Struct then TPtr bt else bt)"
  with k have "kindOf bt' \<noteq> Struct" by auto
  from checkForDependency_not_Struct[OF this] obtain has deps c1
    where C: "checkForDependency e bt' c = Some (has, deps, c1)" by blast
  from checkForDependency_frame[OF C] have F: "registeredBeans c1 = registeredBeans c" by simp
  from k C F assms(1,2) show "\<exists>c' hasDeps deps c1.
              Register e beanID (Some bt) c = (Success, c') \<and>
              checkForDependency e (if kindOf bt = Struct then TPtr bt else bt) c
                = Some (hasDeps, deps, c1) \<and>
              registeredBeans c' = (registeredBeans c)(toLower beanID \<mapsto>
                \<lparr>id_bean = toLower beanID,
                 beanType = Some (if kindOf bt = Struct then TPtr bt else bt),
                 instance_bean = VNil, singleton = False,
                 hasDependencies = hasDeps, dependencies = deps\<rparr>)"
    by (auto simp: Register_def Let_def bt'_def)
next
  assume t: "typeOf inst = Some t"
  define bt' where "bt' = (if kindOf t = Struct then TPtr t else t)"
  then have "kindOf bt' \<noteq> Struct" by auto
  from checkForDependency_not_Struct[OF this] obtain has deps c1
    where C: "checkForDependency e bt' c = Some (has, deps, c1)" by blast
  from checkForDependency_frame[OF C] have F: "registeredBeans c1 = registeredBeans c" by simp
  from t C F assms(1,2) show "\<exists>c' h' hasDeps deps c1.
              RegisterInstance e beanID inst c h = (Success, c', h') \<and>
              checkForDependency e (if kindOf t = Struct then TPtr t else t) c
                = Some (hasDeps, deps, c1) \<and>
              registeredBeans c' = (registeredBeans c)(toLower beanID \<mapsto>
                \<lparr>id_bean = toLower beanID,
                 beanType = Some (if kindOf t = Struct then TPtr t else t),
                 instance_bean = (if kindOf t = Struct then VPtr t (Some (length h)) else inst),
                 singleton = True,
                 hasDependencies = hasDeps, dependencies = deps\<rparr>)"
    by (auto simp: RegisterInstance_def Let_def bt'_def)
qed

theorem reregistration_replaces_witness:
  "\<not> built configOnly \<and> ''CONFIG'' \<noteq> emptyString \<and>
   registeredBeans configOnly (toLower ''CONFIG'') \<noteq> None \<and>
   (\<exists>c' hasDeps deps c1.
      Register testEnv ''CONFIG'' (Some (TStruct ''Logger'')) configOnly = (Success, c') \<and>
      checkForDependency testEnv (TPtr (TStruct ''Logger'')) configOnly = Some (hasDeps, deps, c1) \<and>
      registeredBeans c' = (registeredBeans configOnly)(toLower ''CONFIG'' \<mapsto>
         \<lparr>id_bean = toLower ''CONFIG'', beanType = Some (TPtr (TStruct ''Logger'')),
          instance_bean = VNil, singleton = False,
          hasDependencies = hasDeps, dependencies = deps\<rparr>)) \<and>
   (\<exists>c' h' hasDeps deps c1.
      RegisterInstance testEnv ''CONFIG'' (VString ''/tmp'') configOnly [] = (Success, c', h') \<and>
      checkForDependency testEnv TString configOnly = Some (hasDeps, deps, c1) \<and>
      registeredBeans c' = (registeredBeans configOnly)(toLower ''CONFIG'' \<mapsto>
         \<lparr>id_bean = toLower ''CONFIG'', beanType = Some TString,
          instance_bean = VString ''/tmp'', singleton = True,
          hasDependencies = hasDeps, dependencies = deps\<rparr>))"
proof -
  have nb: "\<not> built configOnly" by code_simp
  have ne: "''CONFIG'' \<noteq> emptyString" by (simp add: emptyString_def)
  have rg: "registeredBeans configOnly (toLower ''CONFIG'') \<noteq> None" by code_simp
  then obtain old where old: "registeredBeans configOnly (toLower ''CONFIG'') = Some old" by blast
  from reregistration_replaces[OF nb ne old, where bt = "TStruct ''Logger''" and e = testEnv
      and inst = "VString ''/tmp''" and t = TString and h = "[]"] nb ne rg
  show ?thesis by simp
qed

end
